theory Spec2Isabelle
  imports Main "HOL-Library.Multiset"
begin

section \<open>Python strings\<close>

text \<open>
  A Python \<open>str\<close> is a sequence of Unicode code points; a code point is a natural number.
  \<open>ascii\<close> turns an Isabelle string literal into such a sequence.
\<close>

type_synonym str = "nat list"

definition ascii :: "string \<Rightarrow> str" where
  "ascii cs = map of_char cs"

text \<open>
  \<open>str.isspace\<close> on one code point, which is also what \<open>\s\<close> matches in a \<open>str\<close> pattern
  and what \<open>str.strip()\<close> removes: U+0009..U+000D, U+001C..U+0020, U+0085, U+00A0,
  U+1680, U+2000..U+200A, U+2028, U+2029, U+202F, U+205F, U+3000.
\<close>

definition isspace :: "nat \<Rightarrow> bool" where
  "isspace c \<longleftrightarrow>
     (9 \<le> c \<and> c \<le> 13) \<or> (28 \<le> c \<and> c \<le> 32) \<or> c = 133 \<or> c = 160 \<or> c = 5760 \<or>
     (8192 \<le> c \<and> c \<le> 8202) \<or> c = 8232 \<or> c = 8233 \<or> c = 8239 \<or> c = 8287 \<or> c = 12288"

text \<open>
  The line boundaries of \<open>str.splitlines\<close>: \<open>\n\<close>, \<open>\v\<close>, \<open>\f\<close>, \<open>\r\<close>, U+001C..U+001E,
  U+0085, U+2028, U+2029; \<open>\r\n\<close> is one boundary.
\<close>

definition islinebreak :: "nat \<Rightarrow> bool" where
  "islinebreak c \<longleftrightarrow>
     (10 \<le> c \<and> c \<le> 13) \<or> (28 \<le> c \<and> c \<le> 30) \<or> c = 133 \<or> c = 8232 \<or> c = 8233"

fun splitlines_from :: "str \<Rightarrow> str \<Rightarrow> str list" where
  "splitlines_from cur [] = (if cur = [] then [] else [rev cur])"
| "splitlines_from cur [c] =
     (if islinebreak c then [rev cur] else [rev (c # cur)])"
| "splitlines_from cur (c # c' # cs) =
     (if c = 13 \<and> c' = 10 then rev cur # splitlines_from [] cs
      else if islinebreak c then rev cur # splitlines_from [] (c' # cs)
      else splitlines_from (c # cur) (c' # cs))"

definition splitlines :: "str \<Rightarrow> str list" where
  "splitlines s = splitlines_from [] s"

definition strip :: "str \<Rightarrow> str" where
  "strip s = rev (dropWhile isspace (rev (dropWhile isspace s)))"

fun join :: "str \<Rightarrow> str list \<Rightarrow> str" where
  "join sep [] = []"
| "join sep [x] = x"
| "join sep (x # y # ys) = x @ sep @ join sep (y # ys)"

text \<open>\<open>str(i)\<close> for an integer: decimal digits, with a minus sign when negative.\<close>

fun digits :: "nat \<Rightarrow> str" where
  "digits n = (if n < 10 then [48 + n] else digits (n div 10) @ [48 + n mod 10])"

declare digits.simps [simp del]

definition str_of_int :: "int \<Rightarrow> str" where
  "str_of_int i = (if i < 0 then 45 # digits (nat (- i)) else digits (nat i))"



section \<open>Text cleaning and URL normalisation\<close>

text \<open>
  \<open>clean_text\<close> deletes every character outside the class of the pattern: the range
  U+0900..U+097F, \<open>\s\<close>, the danda (U+0964), \<open>?\<close> (63) and \<open>!\<close> (33).
\<close>

definition devanagari :: "nat \<Rightarrow> bool" where
  "devanagari c \<longleftrightarrow> 0x900 \<le> c \<and> c \<le> 0x97F"

definition retained :: "nat \<Rightarrow> bool" where
  "retained c \<longleftrightarrow> devanagari c \<or> isspace c \<or> c = 0x964 \<or> c = 63 \<or> c = 33"

definition clean_text :: "str \<Rightarrow> str" where
  "clean_text text = filter retained text"

text \<open>
  \<open>normalize_url\<close>. \<open>single_slash_after scheme url\<close>: the URL starts with the scheme, one
  slash (47) and a character that is not a slash, which is what \<open>^https?:/[^/]\<close> asks for
  with the scheme \<open>http:\<close> or \<open>https:\<close> (\<open>[^/]\<close> accepts every other character, the
  newline too). \<open>double_slash\<close> is the substitution of \<open>^(https?:)/([^/])\<close> by \<open>\1//\2\<close>; the
  pattern is anchored at the start, so at most one place is rewritten.
\<close>

definition single_slash_after :: "str \<Rightarrow> str \<Rightarrow> bool" where
  "single_slash_after scheme url \<longleftrightarrow>
     take (length scheme) url = scheme \<and>
     (case drop (length scheme) url of
        c # c' # rest \<Rightarrow> c = 47 \<and> c' \<noteq> 47
      | _ \<Rightarrow> False)"

definition matches_malformed :: "str \<Rightarrow> bool" where
  "matches_malformed url \<longleftrightarrow>
     single_slash_after (ascii ''http:'') url \<or> single_slash_after (ascii ''https:'') url"

definition double_slash :: "str \<Rightarrow> str" where
  "double_slash url =
     (if single_slash_after (ascii ''http:'') url
      then ascii ''http:'' @ 47 # drop (length (ascii ''http:'')) url
      else if single_slash_after (ascii ''https:'') url
      then ascii ''https:'' @ 47 # drop (length (ascii ''https:'')) url
      else url)"

definition normalize_url :: "str \<Rightarrow> str" where
  "normalize_url url = (if matches_malformed url then double_slash url else url)"

section \<open>The collaborators\<close>

text \<open>
  What the run sees of the outside: the pages of the web, the language detector, the
  shutdown flag that the signal handler sets, the arrival of a \<open>KeyboardInterrupt\<close>, the
  file system and the clock.
  \<^item> \<open>paragraphs u\<close>: the texts of the \<open>p\<close> elements of the page at \<open>u\<close>, \<open>None\<close> when the
    request or the parser raises;
  \<^item> \<open>is_nepali\<close>: the detector, which answers \<open>False\<close> when it raises;
  \<^item> \<open>get_internal_links current_url base_url\<close>: the links that function returns, in the
    order in which the returned set is iterated (the empty list when the request raises);
  \<^item> \<open>shutdown_flag k\<close>: the value of the flag when the loop test reads it for the
    \<open>k\<close>-th time;
  \<^item> \<open>keyboard_interrupt k\<close>: the point of the \<open>k\<close>-th iteration at which a
    \<open>KeyboardInterrupt\<close> is raised, if any;
  \<^item> \<open>makedirs_fails k\<close>: in the \<open>k\<close>-th iteration the file system refuses
    \<open>os.makedirs(folder_path, exist_ok=True)\<close> (the path is an existing file, a parent is
    not writable, ...);
  \<^item> \<open>clock_advanced k\<close>: in the \<open>k\<close>-th iteration \<open>time.time() - start_time\<close> is positive.

  The points of an iteration, each named after the last statement that has run: the loop
  test (\<open>BeforePop\<close>), \<open>queue.pop(0)\<close>, \<open>visited.add\<close>, \<open>crawled_pages += 1\<close> (which the
  request for the page follows), \<open>save_text_to_file\<close>, \<open>page_count += 1\<close>, and the \<open>for\<close>
  loop over the links after a number of its rounds. The web is taken as fixed during a
  run: the paragraphs and the links of a page are functions of its URL.
\<close>

datatype ipoint =
    BeforePop
  | AfterPop
  | AfterMark
  | AfterCount
  | AfterWrite
  | AfterSaved
  | InEnqueue nat

record world =
  paragraphs :: "str \<Rightarrow> str list option"
  is_nepali :: "str \<Rightarrow> bool"
  get_internal_links :: "str \<Rightarrow> str \<Rightarrow> str list"
  shutdown_flag :: "nat \<Rightarrow> bool"
  keyboard_interrupt :: "nat \<Rightarrow> ipoint option"
  makedirs_fails :: "nat \<Rightarrow> bool"
  clock_advanced :: "nat \<Rightarrow> bool"

definition extract_nepali_text_from_url :: "world \<Rightarrow> str \<Rightarrow> str option" where
  "extract_nepali_text_from_url W current_url =
     (case paragraphs W current_url of
        None \<Rightarrow> None
      | Some ps \<Rightarrow>
          let nepali_texts =
                map clean_text (filter (\<lambda>text. text \<noteq> [] \<and> is_nepali W text) (map strip ps))
          in if nepali_texts \<noteq> [] then Some (join [32] nepali_texts) else None)"

definition collect_initial_links :: "world \<Rightarrow> str \<Rightarrow> str list" where
  "collect_initial_links W url = get_internal_links W url url"

section \<open>The crawl state and the checkpoint file\<close>

record crawl_state =
  queue :: "(str \<times> int) list"
  visited :: "str set"
  page_count :: int
  crawled_pages :: int

text \<open>
  What \<open>pickle.load\<close> may return from an existing readable file: the dictionary of a
  checkpoint, a falsy object, or a truthy object without the four keys. The file itself
  is missing, unreadable (corrupt), or holds one of these.
\<close>

datatype pickled = StateDict crawl_state | Falsy | Malformed

datatype state_file = Missing | Corrupt | Holds pickled

text \<open>
  The exceptions that nothing in the program catches: \<open>KeyError\<close> from a checkpoint without
  the keys, \<open>IndexError\<close> from \<open>pop\<close> on an empty list, \<open>OverflowError\<close> from the division of
  an integer too large for a float, and \<open>OSError\<close> (with its subclasses) from \<open>os.makedirs\<close>.
\<close>

datatype error = KeyError | IndexError | OverflowError | OSError

definition exists_file :: "state_file \<Rightarrow> bool" where
  "exists_file f \<longleftrightarrow> f \<noteq> Missing"

definition load_state :: "state_file \<Rightarrow> pickled option" where
  "load_state f = (case f of Missing \<Rightarrow> None | Corrupt \<Rightarrow> None | Holds v \<Rightarrow> Some v)"

definition fresh_state :: "world \<Rightarrow> str \<Rightarrow> crawl_state" where
  "fresh_state W url =
     \<lparr>queue = map (\<lambda>link. (link, 1)) (collect_initial_links W url),
      visited = {}, page_count = 0, crawled_pages = 0\<rparr>"

definition initial_state :: "world \<Rightarrow> str \<Rightarrow> state_file \<Rightarrow> bool \<Rightarrow> error + crawl_state" where
  "initial_state W url f resume =
     (if resume \<and> exists_file f then
        (case load_state f of
           Some (StateDict st) \<Rightarrow> Inr st
         | Some Malformed \<Rightarrow> Inl KeyError
         | Some Falsy \<Rightarrow> Inr (fresh_state W url)
         | None \<Rightarrow> Inr (fresh_state W url))
      else Inr (fresh_state W url))"

section \<open>The crawl loop\<close>

text \<open>
  The run is observed through a log of what it does, in order: the entries it pops, the
  URLs it adds to \<open>visited\<close>, the files it writes (folder, name, text), the states it
  hands to \<open>save_state\<close>, and the entries it appends to the queue. \<open>save_text_to_file\<close>
  and \<open>save_state\<close> catch their own I/O errors, so the log records the call.
\<close>

datatype event =
    Pop str int
  | Mark str
  | WriteFile str str str
  | SaveState crawl_state
  | Push str int

definition SAVE_INTERVAL :: int where
  "SAVE_INTERVAL = 100"

definition file_name :: "int \<Rightarrow> str" where
  "file_name n = ascii ''page_'' @ str_of_int (n + 1) @ ascii ''.txt''"

definition accepted :: "str option \<Rightarrow> bool" where
  "accepted nepali_text \<longleftrightarrow>
     (case nepali_text of None \<Rightarrow> False | Some t \<Rightarrow> t \<noteq> [] \<and> 1 < length (splitlines t))"

text \<open>
  \<open>save_text_to_file\<close> calls \<open>os.makedirs\<close> before its \<open>try\<close>, so a failure there is raised to
  the caller: for the empty path always, otherwise when the file system refuses. What
  happens under the \<open>try\<close> (opening and writing the file) is caught there; the log records
  the call.
\<close>

definition makedirs_raises :: "world \<Rightarrow> nat \<Rightarrow> str \<Rightarrow> bool" where
  "makedirs_raises W k folder_path \<longleftrightarrow> folder_path = [] \<or> makedirs_fails W k"

definition save_text_to_file ::
  "world \<Rightarrow> nat \<Rightarrow> str \<Rightarrow> str \<Rightarrow> str \<Rightarrow> event list \<Rightarrow> error + event list" where
  "save_text_to_file W k txt folder_path name log =
     (if makedirs_raises W k folder_path then Inl OSError
      else Inr (log @ [WriteFile folder_path name txt]))"

text \<open>
  \<open>pages_per_second = crawled_pages / elapsed_time if elapsed_time > 0 else 0\<close>: the division
  converts the integer to a float and raises \<open>OverflowError\<close> when its magnitude is
  \<open>2 ^ 1024 - 2 ^ 970\<close> or more.
\<close>

definition float_overflow :: "int \<Rightarrow> bool" where
  "float_overflow n \<longleftrightarrow> 2 ^ 1024 - 2 ^ 970 \<le> \<bar>n\<bar>"

definition rate_raises :: "world \<Rightarrow> nat \<Rightarrow> int \<Rightarrow> bool" where
  "rate_raises W k n \<longleftrightarrow> clock_advanced W k \<and> float_overflow n"

text \<open>
  The statement \<open>if nepali_text and len(nepali_text.splitlines()) > 1: ...\<close>: \<open>save_page\<close> is
  its block, \<open>accept_block\<close> the whole statement. \<open>Inl\<close> carries the exception with the
  state and the log as they are when it is raised.
\<close>

definition save_page ::
  "world \<Rightarrow> nat \<Rightarrow> str \<Rightarrow> str \<Rightarrow> crawl_state \<times> event list
     \<Rightarrow> (error \<times> crawl_state \<times> event list) + crawl_state \<times> event list" where
  "save_page W k folder_path nepali_text = (\<lambda>(s, log).
     case save_text_to_file W k nepali_text folder_path (file_name (page_count s)) log of
       Inl e \<Rightarrow> Inl (e, s, log)
     | Inr log' \<Rightarrow>
         let s' = s\<lparr>page_count := page_count s + 1\<rparr>
         in Inr (if page_count s' mod SAVE_INTERVAL = 0
                 then (s', log' @ [SaveState s']) else (s', log')))"

definition accept_block ::
  "world \<Rightarrow> nat \<Rightarrow> str \<Rightarrow> str \<Rightarrow> crawl_state \<times> event list
     \<Rightarrow> (error \<times> crawl_state \<times> event list) + crawl_state \<times> event list" where
  "accept_block W k folder_path current_url sl =
     (let nepali_text = extract_nepali_text_from_url W current_url
      in if accepted nepali_text then save_page W k folder_path (the nepali_text) sl
         else Inr sl)"

text \<open>The \<open>for link in internal_links\<close> loop.\<close>

fun enqueue_links :: "str list \<Rightarrow> int \<Rightarrow> crawl_state \<times> event list \<Rightarrow> crawl_state \<times> event list" where
  "enqueue_links [] current_depth sl = sl"
| "enqueue_links (link # links) current_depth (s, log) =
     enqueue_links links current_depth
       (if link \<notin> visited s
        then (s\<lparr>queue := queue s @ [(link, current_depth + 1)]\<rparr>,
              log @ [Push link (current_depth + 1)])
        else (s, log))"

text \<open>
  One iteration of the \<open>while\<close> loop, the \<open>k\<close>-th. It ends (\<open>Inr\<close>) or raises an exception
  that nothing catches (\<open>Inl\<close>, with the state and the log at that moment). The loop test
  has found the queue non-empty, so the first case is never reached from the loop.
\<close>

definition loop_body ::
  "world \<Rightarrow> str \<Rightarrow> str \<Rightarrow> int \<Rightarrow> nat \<Rightarrow> crawl_state \<times> event list
     \<Rightarrow> (error \<times> crawl_state \<times> event list) + crawl_state \<times> event list" where
  "loop_body W url folder_path max_depth k = (\<lambda>(s, log).
     case queue s of
       [] \<Rightarrow> Inl (IndexError, s, log)
     | (current_url, current_depth) # rest \<Rightarrow>
         let s1 = s\<lparr>queue := rest\<rparr>;
             log1 = log @ [Pop current_url current_depth]
         in if current_url \<in> visited s1 \<or> current_depth > max_depth then Inr (s1, log1)
            else
              let s2 = s1\<lparr>visited := insert current_url (visited s1)\<rparr>;
                  log2 = log1 @ [Mark current_url];
                  s3 = s2\<lparr>crawled_pages := crawled_pages s2 + 1\<rparr>
              in if rate_raises W k (crawled_pages s3) then Inl (OverflowError, s3, log2)
                 else
                   (case accept_block W k folder_path current_url (s3, log2) of
                      Inl r \<Rightarrow> Inl r
                    | Inr sl4 \<Rightarrow>
                        Inr (if current_depth < max_depth
                             then enqueue_links (get_internal_links W current_url url)
                                    current_depth sl4
                             else sl4)))"

text \<open>
  The same iteration cut short by a \<open>KeyboardInterrupt\<close> at point \<open>p\<close>: the state and the
  log as they are when the exception leaves the loop. \<open>None\<close> when the iteration does not
  pass through \<open>p\<close> (a discarded entry is never marked, a rejected page is never written,
  an entry at the depth limit enqueues nothing, and nothing follows an exception raised
  earlier in the iteration); the iteration then runs as \<open>loop_body\<close> says.
  \<open>InEnqueue n\<close> is the point after \<open>n\<close> links of the \<open>for\<close> loop have been handled, also
  \<open>n = 0\<close> for the request that fetches them.
\<close>

definition interrupted_body ::
  "ipoint \<Rightarrow> world \<Rightarrow> str \<Rightarrow> str \<Rightarrow> int \<Rightarrow> nat \<Rightarrow> crawl_state \<times> event list
     \<Rightarrow> (crawl_state \<times> event list) option" where
  "interrupted_body p W url folder_path max_depth k = (\<lambda>(s, log).
     case queue s of
       [] \<Rightarrow> (case p of BeforePop \<Rightarrow> Some (s, log) | _ \<Rightarrow> None)
     | (current_url, current_depth) # rest \<Rightarrow>
         let s1 = s\<lparr>queue := rest\<rparr>;
             log1 = log @ [Pop current_url current_depth];
             discarded = (current_url \<in> visited s1 \<or> current_depth > max_depth);
             s2 = s1\<lparr>visited := insert current_url (visited s1)\<rparr>;
             log2 = log1 @ [Mark current_url];
             s3 = s2\<lparr>crawled_pages := crawled_pages s2 + 1\<rparr>;
             overflow = rate_raises W k (crawled_pages s3);
             nepali_text = extract_nepali_text_from_url W current_url;
             written = (accepted nepali_text \<and> \<not> makedirs_raises W k folder_path);
             log3 = log2 @ [WriteFile folder_path (file_name (page_count s3)) (the nepali_text)];
             links = get_internal_links W current_url url
         in (case p of
              BeforePop \<Rightarrow> Some (s, log)
            | AfterPop \<Rightarrow> Some (s1, log1)
            | AfterMark \<Rightarrow> if discarded then None else Some (s2, log2)
            | AfterCount \<Rightarrow> if discarded then None else Some (s3, log2)
            | AfterWrite \<Rightarrow>
                if discarded \<or> overflow \<or> \<not> written then None else Some (s3, log3)
            | AfterSaved \<Rightarrow>
                if discarded \<or> overflow \<or> \<not> written then None
                else Some (s3\<lparr>page_count := page_count s3 + 1\<rparr>, log3)
            | InEnqueue n \<Rightarrow>
                if discarded \<or> overflow \<or> \<not> current_depth < max_depth \<or> length links < n
                then None
                else
                  (case accept_block W k folder_path current_url (s3, log2) of
                     Inl r \<Rightarrow> None
                   | Inr sl4 \<Rightarrow> Some (enqueue_links (take n links) current_depth sl4))))"

text \<open>
  How the loop is left. \<open>Raised e\<close>: by the exception \<open>e\<close>, which goes on to the caller once
  the \<open>finally\<close> block has run.
\<close>

datatype exit = BudgetReached | FrontierExhausted | StopRequested | Interrupted | Raised error

text \<open>
  The \<open>while\<close> loop, with what follows it under \<open>try\<close>: the three conjuncts of the test are
  read in order, and a \<open>KeyboardInterrupt\<close> ends the loop where it strikes. The result is
  the reason for leaving, the state and the log. Each iteration removes an entry from the
  queue and appends only entries one level deeper, none beyond \<open>max_depth\<close>, so the loop
  ends: the multiset of the entries' distances to the depth limit decreases.
  \<open>iteration_raises\<close> tells from the state at its start whether an iteration raises,
  \<open>children\<close> is what it appends to the queue, \<open>weight\<close> the distance of an entry to the
  depth limit; they serve the termination proof and the lemmas below.
\<close>

definition iteration_raises :: "world \<Rightarrow> str \<Rightarrow> int \<Rightarrow> nat \<Rightarrow> crawl_state \<Rightarrow> error option" where
  "iteration_raises W folder_path max_depth k s =
     (case queue s of
        [] \<Rightarrow> Some IndexError
      | (u, d) # rest \<Rightarrow>
          if u \<in> visited s \<or> d > max_depth then None
          else if rate_raises W k (crawled_pages s + 1) then Some OverflowError
          else if accepted (extract_nepali_text_from_url W u) \<and> makedirs_raises W k folder_path
          then Some OSError
          else None)"

definition children ::
  "world \<Rightarrow> str \<Rightarrow> str \<Rightarrow> int \<Rightarrow> nat \<Rightarrow> crawl_state \<Rightarrow> (str \<times> int) list" where
  "children W url folder_path max_depth k s =
     (case queue s of
        [] \<Rightarrow> []
      | (u, d) # rest \<Rightarrow>
          if u \<in> visited s \<or> d > max_depth \<or> \<not> d < max_depth \<or>
             iteration_raises W folder_path max_depth k s \<noteq> None
          then []
          else map (\<lambda>l. (l, d + 1))
                 (filter (\<lambda>l. l \<notin> insert u (visited s)) (get_internal_links W u url)))"

definition weight :: "int \<Rightarrow> str \<times> int \<Rightarrow> nat" where
  "weight max_depth e = nat (max_depth + 1 - snd e)"

function crawl_loop ::
  "world \<Rightarrow> str \<Rightarrow> str \<Rightarrow> int \<Rightarrow> int \<Rightarrow> nat \<Rightarrow> crawl_state \<times> event list
     \<Rightarrow> exit \<times> crawl_state \<times> event list" where
  "crawl_loop W url folder_path max_pages max_depth k (s, log) =
     (if \<not> page_count s < max_pages then (BudgetReached, s, log)
      else if queue s = [] then (FrontierExhausted, s, log)
      else if shutdown_flag W k then (StopRequested, s, log)
      else
        (case (case keyboard_interrupt W k of
                 None \<Rightarrow> None
               | Some p \<Rightarrow> interrupted_body p W url folder_path max_depth k (s, log)) of
           Some sl \<Rightarrow> (Interrupted, sl)
         | None \<Rightarrow>
             (case loop_body W url folder_path max_depth k (s, log) of
                Inl (e, sl) \<Rightarrow> (Raised e, sl)
              | Inr sl \<Rightarrow> crawl_loop W url folder_path max_pages max_depth (Suc k) sl)))"
  by pat_completeness auto
termination
proof (relation "inv_image (mult {(a, b). a < b})
         (\<lambda>(W, url, folder_path, max_pages, max_depth, k, s, log).
            mset (map (weight max_depth) (queue s)))", goal_cases)
  case 1
  show ?case by (simp add: wf_mult wf_less)
next
  case (2 W url folder_path max_pages max_depth k s log sl)
  then obtain u d rest where q: "queue s = (u, d) # rest" by (cases "queue s") auto
  have appended: "enqueue_links links d (s', log') =
      (s'\<lparr>queue := queue s' @ map (\<lambda>l. (l, d + 1)) (filter (\<lambda>l. l \<notin> visited s') links)\<rparr>,
       log' @ map (\<lambda>l. Push l (d + 1)) (filter (\<lambda>l. l \<notin> visited s') links))"
    for links d s' log'
    by (induction links arbitrary: s' log') auto
  let ?c = "if u \<in> visited s \<or> d > max_depth \<or> \<not> d < max_depth then []
            else map (\<lambda>l. (l, d + 1))
                   (filter (\<lambda>l. l \<notin> insert u (visited s)) (get_internal_links W u url))"
  from 2 have "loop_body W url folder_path max_depth k (s, log) = Inr sl" by simp
  then have after: "queue (fst sl) = rest @ ?c"
    using q
    by (auto simp: loop_body_def accept_block_def save_page_def save_text_to_file_def Let_def
        appended split: if_splits sum.splits)
  have smaller: "weight max_depth c < weight max_depth (u, d)" if "c \<in> set ?c" for c
    using that by (auto simp: weight_def split: if_splits)
  let ?K = "mset (map (weight max_depth) ?c)"
  let ?I = "mset (map (weight max_depth) rest)"
  have "(?I + ?K, ?I + {#weight max_depth (u, d)#}) \<in> mult {(a, b). a < b}"
    by (rule one_step_implies_mult) (use smaller in auto)
  then show ?case
    using q after by (cases sl) simp
qed

declare crawl_loop.simps [simp del]

text \<open>
  \<open>create_nepali_corpus\<close>: the initial state (which may raise on a checkpoint without the
  keys, before the \<open>try\<close>: \<open>Inl\<close>), the loop, and the \<open>finally\<close> block, which hands the state
  to \<open>save_state\<close> however the loop was left, also by an exception.
\<close>

definition create_nepali_corpus ::
  "world \<Rightarrow> str \<Rightarrow> str \<Rightarrow> int \<Rightarrow> int \<Rightarrow> state_file \<Rightarrow> bool
     \<Rightarrow> error + exit \<times> crawl_state \<times> event list" where
  "create_nepali_corpus W url folder_path max_pages max_depth state_file resume =
     (case initial_state W url state_file resume of
        Inl e \<Rightarrow> Inl e
      | Inr s0 \<Rightarrow>
          (case crawl_loop W url folder_path max_pages max_depth 0 (s0, []) of
             (x, s, log) \<Rightarrow> Inr (x, s, log @ [SaveState s])))"

text \<open>
  The two parts of what an iteration gives: the state and the log it leaves, whether it
  ends or raises, and the exception if it raises.
\<close>

definition after ::
  "(error \<times> crawl_state \<times> event list) + crawl_state \<times> event list \<Rightarrow> crawl_state \<times> event list" where
  "after r = (case r of Inl (e, sl) \<Rightarrow> sl | Inr sl \<Rightarrow> sl)"

definition raised ::
  "(error \<times> crawl_state \<times> event list) + crawl_state \<times> event list \<Rightarrow> error option" where
  "raised r = (case r of Inl (e, sl) \<Rightarrow> Some e | Inr sl \<Rightarrow> None)"

text \<open>The projections of a log.\<close>

definition popped :: "event list \<Rightarrow> (str \<times> int) list" where
  "popped log = concat (map (\<lambda>e. case e of Pop u d \<Rightarrow> [(u, d)] | _ \<Rightarrow> []) log)"

definition pushed :: "event list \<Rightarrow> (str \<times> int) list" where
  "pushed log = concat (map (\<lambda>e. case e of Push u d \<Rightarrow> [(u, d)] | _ \<Rightarrow> []) log)"

definition marked :: "event list \<Rightarrow> str list" where
  "marked log = concat (map (\<lambda>e. case e of Mark u \<Rightarrow> [u] | _ \<Rightarrow> []) log)"

definition written :: "event list \<Rightarrow> (str \<times> str \<times> str) list" where
  "written log = concat (map (\<lambda>e. case e of WriteFile f n t \<Rightarrow> [(f, n, t)] | _ \<Rightarrow> []) log)"

definition checkpoints :: "event list \<Rightarrow> crawl_state list" where
  "checkpoints log = concat (map (\<lambda>e. case e of SaveState s \<Rightarrow> [s] | _ \<Rightarrow> []) log)"

section \<open>One iteration in closed form\<close>

text \<open>
  What one uninterrupted iteration appends to the log, read off the state at its start.
  \<open>accept_events\<close> is what the accept block appends when the folder can be made.
\<close>

definition accept_events :: "world \<Rightarrow> str \<Rightarrow> crawl_state \<Rightarrow> str \<Rightarrow> (str \<times> int) list \<Rightarrow> event list" where
  "accept_events W folder_path s u rest =
     (if accepted (extract_nepali_text_from_url W u)
      then WriteFile folder_path (file_name (page_count s))
             (the (extract_nepali_text_from_url W u)) #
           (if (page_count s + 1) mod SAVE_INTERVAL = 0
            then [SaveState (s\<lparr>queue := rest, visited := insert u (visited s),
                               crawled_pages := crawled_pages s + 1,
                               page_count := page_count s + 1\<rparr>)]
            else [])
      else [])"

definition body_events ::
  "world \<Rightarrow> str \<Rightarrow> str \<Rightarrow> int \<Rightarrow> nat \<Rightarrow> crawl_state \<Rightarrow> event list" where
  "body_events W url folder_path max_depth k s =
     (case queue s of
        [] \<Rightarrow> []
      | (u, d) # rest \<Rightarrow>
          if u \<in> visited s \<or> d > max_depth then [Pop u d]
          else if iteration_raises W folder_path max_depth k s \<noteq> None then [Pop u d, Mark u]
          else
            [Pop u d, Mark u] @ accept_events W folder_path s u rest @
            map (\<lambda>(l, d'). Push l d') (children W url folder_path max_depth k s))"

section \<open>Invariants of the loop\<close>

text \<open>
  Properties of a state and a log that every iteration keeps, also an iteration that an
  interrupt cuts short. \<open>marks_ok v0 c0\<close>, for a run that starts with the visited set \<open>v0\<close>
  and \<open>crawled_pages = c0\<close>: no URL is marked twice, the visited set is \<open>v0\<close> and the marked
  URLs, none of them in \<open>v0\<close>, and the counter has grown by at most their number.
\<close>

definition marks_ok :: "str set \<Rightarrow> int \<Rightarrow> crawl_state \<times> event list \<Rightarrow> bool" where
  "marks_ok v0 c0 = (\<lambda>(s, log).
     distinct (marked log) \<and> visited s = v0 \<union> set (marked log) \<and>
     set (marked log) \<inter> v0 = {} \<and> crawled_pages s \<le> c0 + int (length (marked log)))"

text \<open>
  \<open>fifo_ok q0\<close>, for a run that starts with the queue \<open>q0\<close>: what was popped, followed by what
  is queued, is \<open>q0\<close> followed by what was pushed.
\<close>

definition fifo_ok :: "(str \<times> int) list \<Rightarrow> crawl_state \<times> event list \<Rightarrow> bool" where
  "fifo_ok q0 = (\<lambda>(s, log). popped log @ queue s = q0 @ pushed log)"

text \<open>
  \<open>depth_ok\<close>: every entry that is queued, was popped or was pushed has a depth between 1
  and \<open>max_depth\<close>.
\<close>

definition entries :: "crawl_state \<times> event list \<Rightarrow> (str \<times> int) set" where
  "entries = (\<lambda>(s, log). set (queue s) \<union> set (popped log) \<union> set (pushed log))"

definition depth_ok :: "int \<Rightarrow> crawl_state \<times> event list \<Rightarrow> bool" where
  "depth_ok max_depth sl \<longleftrightarrow> (\<forall>l d. (l, d) \<in> entries sl \<longrightarrow> 1 \<le> d \<and> d \<le> max_depth)"

text \<open>\<open>counters_ok\<close>: no more pages saved than crawled.\<close>

definition counters_ok :: "crawl_state \<times> event list \<Rightarrow> bool" where
  "counters_ok = (\<lambda>(s, log). page_count s \<le> crawled_pages s)"

text \<open>\<open>files_clean\<close>: every text written consists of characters that \<open>clean_text\<close> retains.\<close>

definition files_clean :: "crawl_state \<times> event list \<Rightarrow> bool" where
  "files_clean = (\<lambda>(s, log).
     \<forall>f n t c. (f, n, t) \<in> set (written log) \<longrightarrow> c \<in> set t \<longrightarrow> retained c)"

text \<open>
  \<open>saved_ok W folder_path p0 c0\<close>, for a run that starts with \<open>page_count = p0\<close> and
  \<open>crawled_pages = c0\<close>, at the loop test: the files written are, in order, the texts of the
  marked URLs whose text is accepted, the \<open>i\<close>-th of them (from 0) under the name
  \<open>file_name (p0 + i)\<close> in \<open>folder_path\<close>; \<open>page_count\<close> has grown by their number and
  \<open>crawled_pages\<close> by the number of marked URLs.
\<close>

definition accepted_urls :: "world \<Rightarrow> str list \<Rightarrow> str list" where
  "accepted_urls W us = filter (\<lambda>u. accepted (extract_nepali_text_from_url W u)) us"

definition saved_files :: "world \<Rightarrow> str \<Rightarrow> int \<Rightarrow> str list \<Rightarrow> (str \<times> str \<times> str) list" where
  "saved_files W folder_path p0 us =
     map (\<lambda>(i, u). (folder_path, file_name (p0 + int i), the (extract_nepali_text_from_url W u)))
       (enumerate 0 (accepted_urls W us))"

definition saved_ok :: "world \<Rightarrow> str \<Rightarrow> int \<Rightarrow> int \<Rightarrow> crawl_state \<times> event list \<Rightarrow> bool" where
  "saved_ok W folder_path p0 c0 = (\<lambda>(s, log).
     written log = saved_files W folder_path p0 (marked log) \<and>
     page_count s = p0 + int (length (accepted_urls W (marked log))) \<and>
     crawled_pages s = c0 + int (length (marked log)))"

section \<open>A small web\<close>

text \<open>
  A start page \<open>s\<close> that links to \<open>a\<close> and \<open>b\<close>; \<open>a\<close> has a paragraph of two lines and links
  to \<open>b\<close>, \<open>a\<close> and \<open>c\<close>; \<open>b\<close> has a paragraph of one line; \<open>c\<close> cannot be fetched. URLs
  are the single letters (\<open>s\<close> is 115, \<open>a\<close> 97, \<open>b\<close> 98, \<open>c\<close> 99), the folder is \<open>o\<close> (111).
  \<open>demo_start\<close> is the fresh state of a crawl from \<open>s\<close>, \<open>demo_after_one\<close> and \<open>demo_log_one\<close>
  the state and the log after its first iteration, \<open>demo_final\<close> and \<open>demo_log\<close> those at the
  end of the crawl with five pages and depth two allowed. The last three states are
  starting points for single iterations: one whose head is already visited, one whose page
  has a single line, one whose next accepted page is the hundredth.
\<close>

definition demo_web :: world where
  "demo_web =
     \<lparr>paragraphs = (\<lambda>u. if u = [97] then Some [[120, 32, 0x928, 0x947, 10, 0x915, 46]]
                         else if u = [98] then Some [[0x928, 0x947]]
                         else None),
      is_nepali = (\<lambda>t. True),
      get_internal_links = (\<lambda>u base. if u = [115] then [[97], [98]]
                         else if u = [97] then [[98], [97], [99]]
                         else []),
      shutdown_flag = (\<lambda>k. False),
      keyboard_interrupt = (\<lambda>k. None),
      makedirs_fails = (\<lambda>k. False),
      clock_advanced = (\<lambda>k. True)\<rparr>"

definition demo_start :: crawl_state where
  "demo_start = \<lparr>queue = [([97], 1), ([98], 1)], visited = {}, page_count = 0, crawled_pages = 0\<rparr>"

definition demo_text :: str where
  "demo_text = [32, 0x928, 0x947, 10, 0x915]"

definition demo_after_one :: crawl_state where
  "demo_after_one =
     \<lparr>queue = [([98], 1), ([98], 2), ([99], 2)], visited = {[97]}, page_count = 1,
      crawled_pages = 1\<rparr>"

definition demo_log_one :: "event list" where
  "demo_log_one =
     [Pop [97] 1, Mark [97], WriteFile [111] (ascii ''page_1.txt'') demo_text,
      Push [98] 2, Push [99] 2]"

definition demo_final :: crawl_state where
  "demo_final = \<lparr>queue = [], visited = {[97], [98], [99]}, page_count = 1, crawled_pages = 3\<rparr>"

definition demo_log :: "event list" where
  "demo_log =
     demo_log_one @ [Pop [98] 1, Mark [98], Pop [98] 2, Pop [99] 2, Mark [99]]"

definition demo_revisit :: crawl_state where
  "demo_revisit = \<lparr>queue = [([98], 2), ([99], 2)], visited = {[97], [98]}, page_count = 1,
     crawled_pages = 2\<rparr>"


definition demo_before_interval :: crawl_state where
  "demo_before_interval =
     \<lparr>queue = [([97], 2)], visited = {}, page_count = 99, crawled_pages = 120\<rparr>"

text \<open>
  \<open>demo_rich_web\<close> is the same web with a paragraph of two lines on every page.
  \<open>demo_resumed\<close> is a state as a checkpoint gives it back, with eight pages saved;
  \<open>demo_swapped\<close> is the fresh state with the two seeds in the other order.
\<close>

definition demo_rich_web :: world where
  "demo_rich_web = demo_web\<lparr>paragraphs := \<lambda>u. Some [[0x928, 10, 0x915]]\<rparr>"

definition demo_resumed :: crawl_state where
  "demo_resumed =
     \<lparr>queue = [([97], 1), ([98], 1)], visited = {}, page_count = 8, crawled_pages = 9\<rparr>"

definition demo_swapped :: crawl_state where
  "demo_swapped =
     \<lparr>queue = [([98], 1), ([97], 1)], visited = {}, page_count = 0, crawled_pages = 0\<rparr>"

text \<open>
  \<open>demo_rich_final\<close> and \<open>demo_rich_log\<close> are the state and the log at the end of the crawl
  of \<open>demo_rich_web\<close> from \<open>demo_resumed\<close> with eleven pages and depth two allowed.
\<close>

definition demo_rich_text :: str where
  "demo_rich_text = [0x928, 10, 0x915]"

definition demo_rich_final :: crawl_state where
  "demo_rich_final =
     \<lparr>queue = [], visited = {[97], [98], [99]}, page_count = 11, crawled_pages = 12\<rparr>"

definition demo_rich_log :: "event list" where
  "demo_rich_log =
     [Pop [97] 1, Mark [97], WriteFile [111] (ascii ''page_9.txt'') demo_rich_text,
      Push [98] 2, Push [99] 2,
      Pop [98] 1, Mark [98], WriteFile [111] (ascii ''page_10.txt'') demo_rich_text,
      Pop [98] 2,
      Pop [99] 2, Mark [99], WriteFile [111] (ascii ''page_11.txt'') demo_rich_text]"

section \<open>Facts about one iteration\<close>

lemma enqueue_links_closed:
  "enqueue_links links d (s, log) =
     (s\<lparr>queue := queue s @ map (\<lambda>l. (l, d + 1)) (filter (\<lambda>l. l \<notin> visited s) links)\<rparr>,
      log @ map (\<lambda>l. Push l (d + 1)) (filter (\<lambda>l. l \<notin> visited s) links))"
  by (induction links arbitrary: s log) auto

lemma save_page_closed:
  "save_page W k f t (s, log) =
     (if makedirs_raises W k f then Inl (OSError, s, log)
      else Inr (s\<lparr>page_count := page_count s + 1\<rparr>,
                log @ WriteFile f (file_name (page_count s)) t #
                  (if (page_count s + 1) mod SAVE_INTERVAL = 0
                   then [SaveState (s\<lparr>page_count := page_count s + 1\<rparr>)] else [])))"
  by (simp add: save_page_def save_text_to_file_def Let_def)

lemmas body_defs =
  loop_body_def accept_block_def save_page_closed iteration_raises_def children_def
  after_def raised_def Let_def enqueue_links_closed

lemma loop_body_raised:
  "raised (loop_body W url folder_path max_depth k (s, log)) =
     iteration_raises W folder_path max_depth k s"
  by (auto simp: body_defs split: list.splits)

lemma loop_body_queue:
  "queue (fst (after (loop_body W url folder_path max_depth k (s, log)))) =
     tl (queue s) @ children W url folder_path max_depth k s"
  by (auto simp: body_defs split: list.splits)

lemma children_weight:
  "queue s = e # rest \<Longrightarrow> c \<in> set (children W url folder_path max_depth k s) \<Longrightarrow>
     weight max_depth c < weight max_depth e"
  by (cases e) (auto simp: children_def weight_def split: if_splits)

lemma loop_body_log:
  "snd (after (loop_body W url folder_path max_depth k (s, log))) =
     log @ body_events W url folder_path max_depth k s"
  by (auto simp: body_defs body_events_def accept_events_def comp_def split: list.splits)

lemma loop_body_visited:
  "visited (fst (after (loop_body W url folder_path max_depth k (s, log)))) =
     (case queue s of
        [] \<Rightarrow> visited s
      | (u, d) # rest \<Rightarrow>
          if u \<in> visited s \<or> d > max_depth then visited s else insert u (visited s))"
  by (auto simp: body_defs split: list.splits)

lemma loop_body_crawled_pages:
  "crawled_pages (fst (after (loop_body W url folder_path max_depth k (s, log)))) =
     (case queue s of
        [] \<Rightarrow> crawled_pages s
      | (u, d) # rest \<Rightarrow>
          if u \<in> visited s \<or> d > max_depth then crawled_pages s else crawled_pages s + 1)"
  by (auto simp: body_defs split: list.splits)

lemma loop_body_page_count:
  "page_count (fst (after (loop_body W url folder_path max_depth k (s, log)))) =
     (case queue s of
        [] \<Rightarrow> page_count s
      | (u, d) # rest \<Rightarrow>
          if u \<in> visited s \<or> d > max_depth then page_count s
          else if iteration_raises W folder_path max_depth k s = None \<and>
                  accepted (extract_nepali_text_from_url W u)
          then page_count s + 1
          else page_count s)"
  by (auto simp: body_defs split: list.splits)

lemma after_simps [simp]:
  "after (Inr sl) = sl" "after (Inl (e, sl)) = sl"
  "raised (Inr sl) = None" "raised (Inl (e, sl)) = Some e"
  by (simp_all add: after_def raised_def)

section \<open>Projections of a log\<close>

lemma popped_simps [simp]:
  "popped [] = []"
  "popped (xs @ ys) = popped xs @ popped ys"
  "popped (Pop u d # xs) = (u, d) # popped xs"
  "popped (Mark u # xs) = popped xs"
  "popped (WriteFile f n t # xs) = popped xs"
  "popped (SaveState s # xs) = popped xs"
  "popped (Push u d # xs) = popped xs"
  by (simp_all add: popped_def)

lemma pushed_simps [simp]:
  "pushed [] = []"
  "pushed (xs @ ys) = pushed xs @ pushed ys"
  "pushed (Pop u d # xs) = pushed xs"
  "pushed (Mark u # xs) = pushed xs"
  "pushed (WriteFile f n t # xs) = pushed xs"
  "pushed (SaveState s # xs) = pushed xs"
  "pushed (Push u d # xs) = (u, d) # pushed xs"
  by (simp_all add: pushed_def)

lemma marked_simps [simp]:
  "marked [] = []"
  "marked (xs @ ys) = marked xs @ marked ys"
  "marked (Pop u d # xs) = marked xs"
  "marked (Mark u # xs) = u # marked xs"
  "marked (WriteFile f n t # xs) = marked xs"
  "marked (SaveState s # xs) = marked xs"
  "marked (Push u d # xs) = marked xs"
  by (simp_all add: marked_def)

lemma written_simps [simp]:
  "written [] = []"
  "written (xs @ ys) = written xs @ written ys"
  "written (Pop u d # xs) = written xs"
  "written (Mark u # xs) = written xs"
  "written (WriteFile f n t # xs) = (f, n, t) # written xs"
  "written (SaveState s # xs) = written xs"
  "written (Push u d # xs) = written xs"
  by (simp_all add: written_def)

lemma checkpoints_simps [simp]:
  "checkpoints [] = []"
  "checkpoints (xs @ ys) = checkpoints xs @ checkpoints ys"
  "checkpoints (Pop u d # xs) = checkpoints xs"
  "checkpoints (Mark u # xs) = checkpoints xs"
  "checkpoints (WriteFile f n t # xs) = checkpoints xs"
  "checkpoints (SaveState s # xs) = s # checkpoints xs"
  "checkpoints (Push u d # xs) = checkpoints xs"
  by (simp_all add: checkpoints_def)

lemma projections_of_pushes [simp]:
  "popped (map (\<lambda>(l, d). Push l d) xs) = []"
  "pushed (map (\<lambda>(l, d). Push l d) xs) = xs"
  "marked (map (\<lambda>(l, d). Push l d) xs) = []"
  "written (map (\<lambda>(l, d). Push l d) xs) = []"
  "checkpoints (map (\<lambda>(l, d). Push l d) xs) = []"
  by (induction xs) auto

lemma projections_of_pushes_comp [simp]:
  "popped (map ((\<lambda>(l, d). Push l d) \<circ> g) xs) = []"
  "pushed (map ((\<lambda>(l, d). Push l d) \<circ> g) xs) = map g xs"
  "marked (map ((\<lambda>(l, d). Push l d) \<circ> g) xs) = []"
  "written (map ((\<lambda>(l, d). Push l d) \<circ> g) xs) = []"
  "checkpoints (map ((\<lambda>(l, d). Push l d) \<circ> g) xs) = []"
  by (induction xs) (auto split: prod.splits)

lemma projections_of_pushes' [simp]:
  "popped (map (\<lambda>l. Push l d) ls) = []"
  "pushed (map (\<lambda>l. Push l d) ls) = map (\<lambda>l. (l, d)) ls"
  "marked (map (\<lambda>l. Push l d) ls) = []"
  "written (map (\<lambda>l. Push l d) ls) = []"
  "checkpoints (map (\<lambda>l. Push l d) ls) = []"
  by (induction ls) auto

lemma enqueue_links_pair:
  "enqueue_links links d sl =
     ((fst sl)\<lparr>queue := queue (fst sl) @
         map (\<lambda>l. (l, d + 1)) (filter (\<lambda>l. l \<notin> visited (fst sl)) links)\<rparr>,
      snd sl @ map (\<lambda>l. Push l (d + 1)) (filter (\<lambda>l. l \<notin> visited (fst sl)) links))"
  by (cases sl) (simp add: enqueue_links_closed)

section \<open>Reasoning about the loop\<close>

lemma crawl_loop_leave:
  "\<not> (page_count s < max_pages \<and> queue s \<noteq> [] \<and> \<not> shutdown_flag W k) \<Longrightarrow>
     crawl_loop W url folder_path max_pages max_depth k (s, log) =
       (if \<not> page_count s < max_pages then BudgetReached
        else if queue s = [] then FrontierExhausted else StopRequested, s, log)"
  by (auto simp: crawl_loop.simps)

lemma crawl_loop_continue:
  "page_count s < max_pages \<Longrightarrow> queue s \<noteq> [] \<Longrightarrow> \<not> shutdown_flag W k \<Longrightarrow>
   keyboard_interrupt W k = None \<Longrightarrow>
   loop_body W url folder_path max_depth k (s, log) = Inr sl \<Longrightarrow>
     crawl_loop W url folder_path max_pages max_depth k (s, log) =
       crawl_loop W url folder_path max_pages max_depth (Suc k) sl"
  by (simp add: crawl_loop.simps)

lemma crawl_loop_raise:
  "page_count s < max_pages \<Longrightarrow> queue s \<noteq> [] \<Longrightarrow> \<not> shutdown_flag W k \<Longrightarrow>
   keyboard_interrupt W k = None \<Longrightarrow>
   loop_body W url folder_path max_depth k (s, log) = Inl (e, sl) \<Longrightarrow>
     crawl_loop W url folder_path max_pages max_depth k (s, log) = (Raised e, sl)"
  by (simp add: crawl_loop.simps)

lemma crawl_loop_rule:
  assumes "I sl"
    and "\<And>s log sl' k. I (s, log) \<Longrightarrow> queue s \<noteq> [] \<Longrightarrow> page_count s < max_pages \<Longrightarrow>
           loop_body W url folder_path max_depth k (s, log) = Inr sl' \<Longrightarrow> I sl'"
    and "\<And>s log. I (s, log) \<Longrightarrow> \<not> page_count s < max_pages \<Longrightarrow> Q (BudgetReached, s, log)"
    and "\<And>s log. I (s, log) \<Longrightarrow> page_count s < max_pages \<Longrightarrow> queue s = [] \<Longrightarrow>
           Q (FrontierExhausted, s, log)"
    and "\<And>s log k. I (s, log) \<Longrightarrow> page_count s < max_pages \<Longrightarrow> queue s \<noteq> [] \<Longrightarrow>
           shutdown_flag W k \<Longrightarrow> Q (StopRequested, s, log)"
    and "\<And>p s log sl' k. I (s, log) \<Longrightarrow> page_count s < max_pages \<Longrightarrow> queue s \<noteq> [] \<Longrightarrow>
           keyboard_interrupt W k = Some p \<Longrightarrow>
           interrupted_body p W url folder_path max_depth k (s, log) = Some sl' \<Longrightarrow>
           Q (Interrupted, sl')"
    and "\<And>s log e sl' k. I (s, log) \<Longrightarrow> page_count s < max_pages \<Longrightarrow> queue s \<noteq> [] \<Longrightarrow>
           loop_body W url folder_path max_depth k (s, log) = Inl (e, sl') \<Longrightarrow>
           Q (Raised e, sl')"
  shows "Q (crawl_loop W url folder_path max_pages max_depth k sl)"
  using assms
proof (induction W url folder_path max_pages max_depth k sl rule: crawl_loop.induct)
  case (1 W url folder_path max_pages max_depth k s log)
  let ?i = "case keyboard_interrupt W k of
              None \<Rightarrow> None
            | Some p \<Rightarrow> interrupted_body p W url folder_path max_depth k (s, log)"
  show ?case
  proof (cases "page_count s < max_pages \<and> queue s \<noteq> [] \<and> \<not> shutdown_flag W k")
    case False
    note eq = crawl_loop_leave[OF False, of url folder_path max_depth log]
    from False consider "\<not> page_count s < max_pages"
      | "page_count s < max_pages" "queue s = []"
      | "page_count s < max_pages" "queue s \<noteq> []" "shutdown_flag W k"
      by blast
    then show ?thesis
    proof cases
      case 1
      with "1.prems"(1,3) show ?thesis unfolding eq by simp
    next
      case 2
      with "1.prems"(1,4) show ?thesis unfolding eq by simp
    next
      case 3
      with "1.prems"(1,5) show ?thesis unfolding eq by simp
    qed
  next
    case True
    show ?thesis
    proof (cases ?i)
      case None
      show ?thesis
      proof (cases "loop_body W url folder_path max_depth k (s, log)")
        case (Inr sl')
        with True None have eq: "crawl_loop W url folder_path max_pages max_depth k (s, log) =
            crawl_loop W url folder_path max_pages max_depth (Suc k) sl'"
          by (simp add: crawl_loop.simps)
        have "I sl'"
          using "1.prems"(1,2) True Inr by blast
        with "1.IH" True None Inr "1.prems"(2-7) show ?thesis
          unfolding eq by blast
      next
        case (Inl r)
        obtain e sl' where r: "r = (e, sl')" by (cases r)
        with True None Inl have eq: "crawl_loop W url folder_path max_pages max_depth k (s, log) =
            (Raised e, sl')"
          by (simp add: crawl_loop.simps)
        from "1.prems"(1,7) True Inl r show ?thesis unfolding eq by blast
      qed
    next
      case (Some sl')
      with True have eq: "crawl_loop W url folder_path max_pages max_depth k (s, log) =
          (Interrupted, sl')"
        by (simp add: crawl_loop.simps)
      from Some obtain p where "keyboard_interrupt W k = Some p"
        "interrupted_body p W url folder_path max_depth k (s, log) = Some sl'"
        by (auto split: option.splits)
      with "1.prems"(1,6) True show ?thesis unfolding eq by blast
    qed
  qed
qed

text \<open>The common case: a property of the state and the log, whatever the exit.\<close>

lemma crawl_loop_invariant:
  assumes "I sl"
    and "\<And>s log k. I (s, log) \<Longrightarrow> queue s \<noteq> [] \<Longrightarrow>
           I (after (loop_body W url folder_path max_depth k (s, log)))"
    and "\<And>p k sl sl'. I sl \<Longrightarrow>
           interrupted_body p W url folder_path max_depth k sl = Some sl' \<Longrightarrow> I sl'"
  shows "I (snd (crawl_loop W url folder_path max_pages max_depth k sl))"
proof (rule crawl_loop_rule[where I = I and Q = "\<lambda>r. I (snd r)"])
  show "I sl" by (rule assms)
next
  fix s log sl' k
  assume "I (s, log)" "queue s \<noteq> []"
    "loop_body W url folder_path max_depth k (s, log) = Inr sl'"
  then show "I sl'" using assms(2)[of s log k] by simp
next
  fix s log e sl' k
  assume "I (s, log)" "queue s \<noteq> []"
    "loop_body W url folder_path max_depth k (s, log) = Inl (e, sl')"
  then show "I (snd (Raised e, sl'))" using assms(2)[of s log k] by simp
next
  fix p s log sl' k
  assume "I (s, log)" "interrupted_body p W url folder_path max_depth k (s, log) = Some sl'"
  then show "I (snd (Interrupted, sl'))" using assms(3) by simp
qed simp_all

lemma loop_body_eq:
  "after (loop_body W url folder_path max_depth k (s, log)) = (s', log') \<longleftrightarrow>
     s' = fst (after (loop_body W url folder_path max_depth k (s, log))) \<and>
     log' = log @ body_events W url folder_path max_depth k s"
  by (cases "after (loop_body W url folder_path max_depth k (s, log))")
     (use loop_body_log[of W url folder_path max_depth k s log] in auto)

lemma loop_body_discard:
  "queue s = (u, d) # rest \<Longrightarrow> u \<in> visited s \<or> d > max_depth \<Longrightarrow>
     loop_body W url folder_path max_depth k (s, log) = Inr (s\<lparr>queue := rest\<rparr>, log @ [Pop u d])"
  by (auto simp: loop_body_def)

lemma accept_events_projections [simp]:
  "popped (accept_events W folder_path s u rest) = []"
  "pushed (accept_events W folder_path s u rest) = []"
  "marked (accept_events W folder_path s u rest) = []"
  by (simp_all add: accept_events_def)

lemma body_events_popped:
  "popped (body_events W url folder_path max_depth k s) =
     (case queue s of [] \<Rightarrow> [] | e # rest \<Rightarrow> [e])"
  by (auto simp: body_events_def split: list.splits)

lemma children_discard:
  "queue s = (u, d) # rest \<Longrightarrow> u \<in> visited s \<or> d > max_depth \<Longrightarrow>
     children W url folder_path max_depth k s = []"
  by (auto simp: children_def)

lemma children_raise:
  "iteration_raises W folder_path max_depth k s \<noteq> None \<Longrightarrow>
     children W url folder_path max_depth k s = []"
  by (auto simp: children_def split: list.splits)

lemma body_events_pushed:
  "pushed (body_events W url folder_path max_depth k s) = children W url folder_path max_depth k s"
  by (cases "queue s")
     (auto simp: body_events_def children_discard children_raise, simp add: children_def)

lemma body_events_marked:
  "marked (body_events W url folder_path max_depth k s) =
     (case queue s of
        [] \<Rightarrow> []
      | (u, d) # rest \<Rightarrow> if u \<in> visited s \<or> d > max_depth then [] else [u])"
  by (auto simp: body_events_def split: list.splits)

lemma children_process:
  "queue s = (u, d) # rest \<Longrightarrow> u \<notin> visited s \<Longrightarrow> d < max_depth \<Longrightarrow>
   iteration_raises W folder_path max_depth k s = None \<Longrightarrow>
     children W url folder_path max_depth k s =
       map (\<lambda>l. (l, d + 1))
         (filter (\<lambda>l. l \<notin> insert u (visited s)) (get_internal_links W u url))"
  by (simp add: children_def)

lemma children_depth:
  "queue s = (u, d) # rest \<Longrightarrow> (l, d') \<in> set (children W url folder_path max_depth k s) \<Longrightarrow>
     d' = d + 1 \<and> d < max_depth"
  by (auto simp: children_def split: if_splits)

text \<open>
  Where a \<open>KeyboardInterrupt\<close> can leave the iteration, and what the state and the log are
  there.
\<close>

lemma interrupted_body_cases [consumes 1, case_names at_start at_pop at_mark at_count at_write at_saved at_enqueue]:
  assumes "interrupted_body p W url folder_path max_depth k (s, log) = Some (s', log')"
  obtains
    "p = BeforePop" "s' = s" "log' = log"
  | u d rest where "p = AfterPop" "queue s = (u, d) # rest"
      "queue s' = rest" "visited s' = visited s"
      "crawled_pages s' = crawled_pages s" "page_count s' = page_count s"
      "log' = log @ [Pop u d]"
  | u d rest where "p = AfterMark" "queue s = (u, d) # rest" "u \<notin> visited s" "d \<le> max_depth"
      "queue s' = rest" "visited s' = insert u (visited s)"
      "crawled_pages s' = crawled_pages s" "page_count s' = page_count s"
      "log' = log @ [Pop u d, Mark u]"
  | u d rest where "p = AfterCount" "queue s = (u, d) # rest" "u \<notin> visited s" "d \<le> max_depth"
      "queue s' = rest" "visited s' = insert u (visited s)"
      "crawled_pages s' = crawled_pages s + 1" "page_count s' = page_count s"
      "log' = log @ [Pop u d, Mark u]"
  | u d rest where "p = AfterWrite" "queue s = (u, d) # rest" "u \<notin> visited s" "d \<le> max_depth"
      "accepted (extract_nepali_text_from_url W u)"
      "iteration_raises W folder_path max_depth k s = None"
      "queue s' = rest" "visited s' = insert u (visited s)"
      "crawled_pages s' = crawled_pages s + 1" "page_count s' = page_count s"
      "log' = log @ [Pop u d, Mark u,
         WriteFile folder_path (file_name (page_count s)) (the (extract_nepali_text_from_url W u))]"
  | u d rest where "p = AfterSaved" "queue s = (u, d) # rest" "u \<notin> visited s" "d \<le> max_depth"
      "accepted (extract_nepali_text_from_url W u)"
      "iteration_raises W folder_path max_depth k s = None"
      "queue s' = rest" "visited s' = insert u (visited s)"
      "crawled_pages s' = crawled_pages s + 1" "page_count s' = page_count s + 1"
      "log' = log @ [Pop u d, Mark u,
         WriteFile folder_path (file_name (page_count s)) (the (extract_nepali_text_from_url W u))]"
  | u d rest n new where "p = InEnqueue n" "queue s = (u, d) # rest" "u \<notin> visited s"
      "d < max_depth" "iteration_raises W folder_path max_depth k s = None"
      "new = map (\<lambda>l. (l, d + 1))
               (filter (\<lambda>l. l \<notin> insert u (visited s)) (take n (get_internal_links W u url)))"
      "queue s' = rest @ new" "visited s' = insert u (visited s)"
      "crawled_pages s' = crawled_pages s + 1"
      "page_count s' = page_count s +
         (if accepted (extract_nepali_text_from_url W u) then 1 else 0)"
      "log' = log @ [Pop u d, Mark u] @ accept_events W folder_path s u rest @
                map (\<lambda>(l, d). Push l d) new"
proof (cases "queue s")
  case Nil
  with assms that(1) show ?thesis
    by (cases p) (simp_all add: interrupted_body_def)
next
  case (Cons e rest)
  obtain u d where e: "e = (u, d)" by (cases e)
  note q = Cons[unfolded e]
  show ?thesis
  proof (cases p)
    case BeforePop
    with assms q that(1) show ?thesis by (simp add: interrupted_body_def Let_def)
  next
    case AfterPop
    with assms q that(2)[of u d rest] show ?thesis
      by (auto simp: interrupted_body_def Let_def)
  next
    case AfterMark
    with assms q that(3)[of u d rest] show ?thesis
      by (auto simp: interrupted_body_def Let_def split: if_splits)
  next
    case AfterCount
    with assms q that(4)[of u d rest] show ?thesis
      by (auto simp: interrupted_body_def Let_def split: if_splits)
  next
    case AfterWrite
    with assms q that(5)[of u d rest] show ?thesis
      by (auto simp: interrupted_body_def iteration_raises_def Let_def split: if_splits)
  next
    case AfterSaved
    with assms q that(6)[of u d rest] show ?thesis
      by (auto simp: interrupted_body_def iteration_raises_def Let_def split: if_splits)
  next
    case (InEnqueue n)
    with assms q that(7)[of n u d rest] show ?thesis
      by (auto simp: interrupted_body_def iteration_raises_def accept_block_def
          save_page_closed Let_def enqueue_links_pair accept_events_def comp_def
          split: if_splits sum.splits)
  qed
qed

section \<open>Runs on the small web\<close>

lemmas demo_defs =
  demo_web_def demo_start_def demo_text_def demo_after_one_def demo_log_one_def
  demo_final_def demo_log_def demo_rich_web_def demo_resumed_def demo_swapped_def
  demo_rich_text_def demo_rich_final_def demo_rich_log_def

lemmas eval_defs =
  loop_body_def interrupted_body_def accept_block_def save_page_def save_text_to_file_def
  makedirs_raises_def rate_raises_def float_overflow_def fresh_state_def
  collect_initial_links_def Let_def extract_nepali_text_from_url_def strip_def clean_text_def
  retained_def devanagari_def isspace_def accepted_def splitlines_def islinebreak_def
  file_name_def str_of_int_def digits.simps ascii_def SAVE_INTERVAL_def

lemma demo_fresh: "fresh_state demo_web [115] = demo_start"
  by (simp add: demo_defs eval_defs)

lemma demo_extract_a: "extract_nepali_text_from_url demo_web [97] = Some demo_text"
  by (simp add: demo_defs eval_defs)


lemma demo_accepted_a: "accepted (Some demo_text)"
  by (simp add: demo_defs eval_defs)


lemma demo_quiet:
  "\<not> makedirs_raises demo_web k [111]" "\<not> rate_raises demo_web k 1"
  "\<not> shutdown_flag demo_web k" "keyboard_interrupt demo_web k = None"
  by (simp_all add: demo_defs eval_defs)

lemma demo_body_one:
  "loop_body demo_web [115] [111] 2 0 (demo_start, []) = Inr (demo_after_one, demo_log_one)"
  by (simp add: demo_defs eval_defs)

lemma demo_run:
  "crawl_loop demo_web [115] [111] 5 2 0 (demo_start, []) =
     (FrontierExhausted, demo_final, demo_log)"
  by (simp add: crawl_loop.simps demo_defs eval_defs insert_commute)

lemma demo_run_budget:
  "crawl_loop demo_web [115] [111] 1 2 0 (demo_start, []) =
     (BudgetReached, demo_after_one, demo_log_one)"
  by (simp add: crawl_loop.simps demo_defs eval_defs)

lemma demo_run_stop:
  "crawl_loop (demo_web\<lparr>shutdown_flag := \<lambda>k. 0 < k\<rparr>) [115] [111] 5 2 0 (demo_start, []) =
     (StopRequested, demo_after_one, demo_log_one)"
  by (simp add: crawl_loop.simps demo_defs eval_defs)

lemma demo_run_interrupt:
  "crawl_loop (demo_web\<lparr>keyboard_interrupt := \<lambda>k. if k = 0 then Some AfterWrite else None\<rparr>)
     [115] [111] 5 2 0 (demo_start, []) =
     (Interrupted,
      \<lparr>queue = [([98], 1)], visited = {[97]}, page_count = 0, crawled_pages = 1\<rparr>,
      [Pop [97] 1, Mark [97], WriteFile [111] (ascii ''page_1.txt'') demo_text])"
  by (simp add: crawl_loop.simps demo_defs eval_defs)

lemma demo_run_raise:
  "crawl_loop demo_web [115] [] 5 2 0 (demo_start, []) =
     (Raised OSError,
      \<lparr>queue = [([98], 1)], visited = {[97]}, page_count = 0, crawled_pages = 1\<rparr>,
      [Pop [97] 1, Mark [97]])"
  by (simp add: crawl_loop.simps demo_defs eval_defs)

lemma demo_run_swapped:
  "crawl_loop demo_web [115] [111] 1 1 0 (demo_swapped, []) =
     (BudgetReached,
      \<lparr>queue = [], visited = {[97], [98]}, page_count = 1, crawled_pages = 2\<rparr>,
      [Pop [98] 1, Mark [98], Pop [97] 1, Mark [97],
       WriteFile [111] (ascii ''page_1.txt'') demo_text])"
  by (simp add: crawl_loop.simps demo_defs eval_defs insert_commute)

lemma demo_run_rich:
  "crawl_loop demo_rich_web [115] [111] 11 2 0 (demo_resumed, []) =
     (BudgetReached, demo_rich_final, demo_rich_log)"
  by (simp add: crawl_loop.simps demo_defs eval_defs insert_commute)

lemma demo_run_over_budget:
  "crawl_loop demo_rich_web [115] [111] 2 2 0 (demo_resumed, []) =
     (BudgetReached, demo_resumed, [])"
  by (simp add: crawl_loop.simps demo_defs)

section \<open>URL normalisation\<close>

lemma ascii_schemes [simp]:
  "ascii ''http:'' = [104, 116, 116, 112, 58]"
  "ascii ''https:'' = [104, 116, 116, 112, 115, 58]"
  "ascii ''http://'' = [104, 116, 116, 112, 58, 47, 47]"
  "ascii ''https://'' = [104, 116, 116, 112, 115, 58, 47, 47]"
  by (simp_all add: ascii_def)

lemma normalize_url_repair_http:
  "c \<noteq> 47 \<Longrightarrow>
     normalize_url (ascii ''http:'' @ 47 # c # rest) = ascii ''http://'' @ c # rest"
  by (simp add: normalize_url_def matches_malformed_def double_slash_def single_slash_after_def)

lemma normalize_url_repair_https:
  "c \<noteq> 47 \<Longrightarrow>
     normalize_url (ascii ''https:'' @ 47 # c # rest) = ascii ''https://'' @ c # rest"
  by (simp add: normalize_url_def matches_malformed_def double_slash_def single_slash_after_def)

lemma normalize_url_well_formed:
  "normalize_url (ascii ''http://'' @ rest) = ascii ''http://'' @ rest"
  "normalize_url (ascii ''https://'' @ rest) = ascii ''https://'' @ rest"
  by (simp_all add: normalize_url_def matches_malformed_def double_slash_def
      single_slash_after_def)

lemma double_slash_not_malformed: "\<not> matches_malformed (double_slash url)"
  by (auto simp: matches_malformed_def double_slash_def single_slash_after_def
      split: list.splits)

lemma normalize_url_example:
  "normalize_url (ascii ''http:/example.com/a'') = ascii ''http://example.com/a''"
  by (simp add: normalize_url_def matches_malformed_def double_slash_def
      single_slash_after_def ascii_def)

text \<open>
  C9. \<open>normalize_url\<close> turns \<open>http:/example.com/a\<close> into \<open>http://example.com/a\<close>; in general
  it doubles a single slash that follows \<open>http:\<close> or \<open>https:\<close>. It returns unchanged every
  URL that starts with \<open>http://\<close> or \<open>https://\<close>, and every URL that the pattern does not
  match. Applying it twice gives what applying it once gives.
\<close>

theorem normalize_url_repairs_and_is_idempotent:
  "normalize_url (ascii ''http:/example.com/a'') = ascii ''http://example.com/a'' \<and>
   (c \<noteq> 47 \<longrightarrow>
      normalize_url (ascii ''http:'' @ 47 # c # rest) = ascii ''http://'' @ c # rest) \<and>
   (c \<noteq> 47 \<longrightarrow>
      normalize_url (ascii ''https:'' @ 47 # c # rest) = ascii ''https://'' @ c # rest) \<and>
   normalize_url (ascii ''http://'' @ rest) = ascii ''http://'' @ rest \<and>
   normalize_url (ascii ''https://'' @ rest) = ascii ''https://'' @ rest \<and>
   (\<not> matches_malformed u \<longrightarrow> normalize_url u = u) \<and>
   normalize_url (normalize_url u) = normalize_url u"
proof -
  have "normalize_url (normalize_url u) = normalize_url u"
    by (simp add: normalize_url_def double_slash_not_malformed)
  moreover have "\<not> matches_malformed u \<longrightarrow> normalize_url u = u"
    by (simp add: normalize_url_def)
  ultimately show ?thesis
    using normalize_url_example normalize_url_repair_http normalize_url_repair_https
      normalize_url_well_formed
    by blast
qed

theorem normalize_url_repairs_and_is_idempotent_witness:
  "normalize_url (ascii ''http:/e.np'') = ascii ''http://e.np'' \<and>
   normalize_url (ascii ''https:/e.np'') = ascii ''https://e.np'' \<and>
   normalize_url (ascii ''http://.np'') = ascii ''http://.np'' \<and>
   normalize_url (ascii ''https://.np'') = ascii ''https://.np'' \<and>
   normalize_url (ascii ''ftp:/e.np'') = ascii ''ftp:/e.np'' \<and>
   normalize_url (normalize_url (ascii ''ftp:/e.np'')) = normalize_url (ascii ''ftp:/e.np'')"
proof -
  have c: "(101::nat) \<noteq> 47" by simp
  have e: "ascii ''http:/e.np'' = ascii ''http:'' @ 47 # 101 # ascii ''.np''"
    "ascii ''https:/e.np'' = ascii ''https:'' @ 47 # 101 # ascii ''.np''"
    "ascii ''http://e.np'' = ascii ''http://'' @ 101 # ascii ''.np''"
    "ascii ''https://e.np'' = ascii ''https://'' @ 101 # ascii ''.np''"
    "ascii ''http://.np'' = ascii ''http://'' @ ascii ''.np''"
    "ascii ''https://.np'' = ascii ''https://'' @ ascii ''.np''"
    by (simp_all add: ascii_def)
  have m: "\<not> matches_malformed (ascii ''ftp:/e.np'')"
    by (simp add: matches_malformed_def single_slash_after_def ascii_def)
  from normalize_url_repairs_and_is_idempotent
         [of 101 "ascii ''.np''" "ascii ''ftp:/e.np''"] c m
  show ?thesis unfolding e by blast
qed

section \<open>The visited set\<close>

lemma marks_ok_loop_body:
  "marks_ok v0 c0 (s, log) \<Longrightarrow>
     marks_ok v0 c0 (after (loop_body W url folder_path max_depth k (s, log)))"
  by (cases "after (loop_body W url folder_path max_depth k (s, log))")
     (use loop_body_log[of W url folder_path max_depth k s log]
          loop_body_visited[of W url folder_path max_depth k s log]
          loop_body_crawled_pages[of W url folder_path max_depth k s log]
      in \<open>auto simp: marks_ok_def body_events_marked split: list.splits if_splits\<close>)

lemma marks_ok_interrupted_body:
  assumes "marks_ok v0 c0 sl" "interrupted_body p W url folder_path max_depth k sl = Some sl'"
  shows "marks_ok v0 c0 sl'"
proof -
  obtain s log s' log' where sl: "sl = (s, log)" "sl' = (s', log')"
    by (cases sl; cases sl') auto
  from assms(2)[unfolded sl] assms(1) show ?thesis
    by (cases rule: interrupted_body_cases) (auto simp: marks_ok_def sl)
qed

lemma crawl_loop_marks_ok:
  "marks_ok (visited s0) (crawled_pages s0)
     (snd (crawl_loop W url folder_path max_pages max_depth k (s0, [])))"
  by (rule crawl_loop_invariant)
     (auto simp: marks_ok_loop_body intro: marks_ok_interrupted_body, simp add: marks_ok_def)

text \<open>
  C1. An iteration adds the dequeued URL to \<open>visited\<close>, and nothing else, exactly when it
  processes the entry (the URL was not visited and the depth is within the limit); it then
  counts the page once. This holds of the state the iteration leaves, whether it ends or
  raises. A dequeued URL that is already visited is discarded: the iteration ends, the
  entry has left the queue and nothing else has changed. Over a whole run, however it is
  left, no URL is marked twice, the visited set grows by exactly the marked URLs, none of
  which was visited before, and \<open>crawled_pages\<close> grows by at most one for each of them.
\<close>

theorem visited_marks_each_url_once:
  "(queue s = (u, d) # rest \<longrightarrow>
      visited (fst (after (loop_body W url folder_path max_depth j (s, log)))) =
        (if u \<in> visited s \<or> d > max_depth then visited s else insert u (visited s)) \<and>
      crawled_pages (fst (after (loop_body W url folder_path max_depth j (s, log)))) =
        (if u \<in> visited s \<or> d > max_depth then crawled_pages s else crawled_pages s + 1) \<and>
      (u \<in> visited s \<longrightarrow>
         loop_body W url folder_path max_depth j (s, log) =
           Inr (s\<lparr>queue := rest\<rparr>, log @ [Pop u d]))) \<and>
   (crawl_loop W url folder_path max_pages max_depth k (s0, []) = (x, s', log') \<longrightarrow>
      distinct (marked log') \<and>
      visited s' = visited s0 \<union> set (marked log') \<and>
      set (marked log') \<inter> visited s0 = {} \<and>
      crawled_pages s' \<le> crawled_pages s0 + int (length (marked log')))"
proof -
  have "queue s = (u, d) # rest \<Longrightarrow> u \<in> visited s \<Longrightarrow>
      loop_body W url folder_path max_depth j (s, log) = Inr (s\<lparr>queue := rest\<rparr>, log @ [Pop u d])"
    by (simp add: loop_body_discard)
  moreover have "crawl_loop W url folder_path max_pages max_depth k (s0, []) = (x, s', log') \<Longrightarrow>
      distinct (marked log') \<and> visited s' = visited s0 \<union> set (marked log') \<and>
      set (marked log') \<inter> visited s0 = {} \<and>
      crawled_pages s' \<le> crawled_pages s0 + int (length (marked log'))"
    using crawl_loop_marks_ok[of s0 W url folder_path max_pages max_depth k]
    by (simp add: marks_ok_def)
  ultimately show ?thesis
    by (simp add: loop_body_visited loop_body_crawled_pages)
qed

theorem visited_marks_each_url_once_witness:
  "loop_body demo_web [115] [111] 2 0 (demo_revisit, []) =
     Inr (demo_revisit\<lparr>queue := [([99], 2)]\<rparr>, [Pop [98] 2]) \<and>
   visited (fst (after (loop_body demo_web [115] [111] 2 0 (demo_start, [])))) = {[97]} \<and>
   crawled_pages (fst (after (loop_body demo_web [115] [111] 2 0 (demo_start, [])))) = 1 \<and>
   visited (fst (after (loop_body demo_web [115] [] 2 0 (demo_start, [])))) = {[97]} \<and>
   crawled_pages (fst (after (loop_body demo_web [115] [] 2 0 (demo_start, [])))) = 1 \<and>
   marked demo_log = [[97], [98], [99]] \<and>
   distinct (marked demo_log) \<and>
   visited demo_final = visited demo_start \<union> set (marked demo_log) \<and>
   set (marked demo_log) \<inter> visited demo_start = {} \<and>
   crawled_pages demo_final \<le> crawled_pages demo_start + int (length (marked demo_log))"
proof -
  have q: "queue demo_revisit = ([98], 2) # [([99], 2)]" "[98] \<in> visited demo_revisit"
    by (simp_all add: demo_revisit_def)
  have q': "queue demo_start = ([97], 1) # [([98], 1)]" "[97] \<notin> visited demo_start"
    by (simp_all add: demo_start_def)
  have m: "marked demo_log = [[97], [98], [99]]"
    by (simp add: demo_log_def demo_log_one_def)
  from visited_marks_each_url_once
         [where s = demo_revisit and u = "[98]" and d = 2 and rest = "[([99], 2)]"
            and W = demo_web and url = "[115]" and folder_path = "[111]" and max_depth = 2
            and log = "[]" and max_pages = 5 and k = 0 and j = 0 and ?s0.0 = demo_start
            and x = FrontierExhausted and s' = demo_final and log' = demo_log]
       visited_marks_each_url_once
         [where s = demo_start and u = "[97]" and d = 1 and rest = "[([98], 1)]"
            and W = demo_web and url = "[115]" and folder_path = "[111]" and max_depth = 2
            and log = "[]" and max_pages = 5 and k = 0 and j = 0 and ?s0.0 = demo_start
            and x = FrontierExhausted and s' = demo_final and log' = demo_log]
       visited_marks_each_url_once
         [where s = demo_start and u = "[97]" and d = 1 and rest = "[([98], 1)]"
            and W = demo_web and url = "[115]" and folder_path = "[]" and max_depth = 2
            and log = "[]" and max_pages = 5 and k = 0 and j = 0 and ?s0.0 = demo_start
            and x = "Raised OSError"
            and s' = "\<lparr>queue = [([98], 1)], visited = {[97]}, page_count = 0, crawled_pages = 1\<rparr>"
            and log' = "[Pop [97] 1, Mark [97]]"]
       q q' m demo_run
  show ?thesis by (simp add: demo_start_def demo_final_def)
qed

section \<open>The frontier\<close>

lemma fifo_ok_loop_body:
  "fifo_ok q0 (s, log) \<Longrightarrow> queue s \<noteq> [] \<Longrightarrow>
     fifo_ok q0 (after (loop_body W url folder_path max_depth k (s, log)))"
  by (cases "after (loop_body W url folder_path max_depth k (s, log))")
     (use loop_body_queue[of W url folder_path max_depth k s log]
      in \<open>auto simp: fifo_ok_def loop_body_eq body_events_popped body_events_pushed
            split: list.splits\<close>)

lemma fifo_ok_interrupted_body:
  assumes "fifo_ok q0 sl" "interrupted_body p W url folder_path max_depth k sl = Some sl'"
  shows "fifo_ok q0 sl'"
proof -
  obtain s log s' log' where sl: "sl = (s, log)" "sl' = (s', log')"
    by (cases sl; cases sl') auto
  from assms(2)[unfolded sl] assms(1) show ?thesis
    by (cases rule: interrupted_body_cases) (auto simp: fifo_ok_def sl)
qed

lemma crawl_loop_fifo_ok:
  "fifo_ok (queue s0) (snd (crawl_loop W url folder_path max_pages max_depth k (s0, [])))"
  by (rule crawl_loop_invariant)
     (auto simp: fifo_ok_loop_body intro: fifo_ok_interrupted_body, simp add: fifo_ok_def)

text \<open>
  C2. An iteration pops the head of the queue and appends what it enqueues at the tail,
  whether it ends or raises. Over a whole run, however it is left, the entries popped, in
  the order they were popped, followed by the entries still queued, are the initial queue
  followed by the entries enqueued, in the order they were enqueued.
\<close>

theorem frontier_is_fifo:
  "(queue s = e # rest \<longrightarrow>
      (\<exists>new.
         popped (snd (after (loop_body W url folder_path max_depth j (s, log)))) =
           popped log @ [e] \<and>
         queue (fst (after (loop_body W url folder_path max_depth j (s, log)))) = rest @ new \<and>
         pushed (snd (after (loop_body W url folder_path max_depth j (s, log)))) =
           pushed log @ new)) \<and>
   (crawl_loop W url folder_path max_pages max_depth k (s0, []) = (x, s', log') \<longrightarrow>
      popped log' @ queue s' = queue s0 @ pushed log')"
proof -
  have "queue s = e # rest \<Longrightarrow>
      popped (snd (after (loop_body W url folder_path max_depth j (s, log)))) = popped log @ [e] \<and>
      queue (fst (after (loop_body W url folder_path max_depth j (s, log)))) =
        rest @ children W url folder_path max_depth j s \<and>
      pushed (snd (after (loop_body W url folder_path max_depth j (s, log)))) =
        pushed log @ children W url folder_path max_depth j s"
    by (simp add: loop_body_log loop_body_queue body_events_popped body_events_pushed)
  moreover have "crawl_loop W url folder_path max_pages max_depth k (s0, []) = (x, s', log') \<Longrightarrow>
      popped log' @ queue s' = queue s0 @ pushed log'"
    using crawl_loop_fifo_ok[of s0 W url folder_path max_pages max_depth k]
    by (simp add: fifo_ok_def)
  ultimately show ?thesis by blast
qed

theorem frontier_is_fifo_witness:
  "(\<exists>new.
      popped (snd (after (loop_body demo_web [115] [111] 2 0 (demo_start, [])))) =
        [] @ [([97], 1)] \<and>
      queue (fst (after (loop_body demo_web [115] [111] 2 0 (demo_start, [])))) =
        [([98], 1)] @ new \<and>
      pushed (snd (after (loop_body demo_web [115] [111] 2 0 (demo_start, [])))) = [] @ new) \<and>
   popped demo_log = [([97], 1), ([98], 1), ([98], 2), ([99], 2)] \<and>
   pushed demo_log = [([98], 2), ([99], 2)] \<and>
   popped demo_log @ queue demo_final = queue demo_start @ pushed demo_log"
proof -
  have q: "queue demo_start = ([97], 1) # [([98], 1)]"
    by (simp add: demo_start_def)
  have p: "popped demo_log = [([97], 1), ([98], 1), ([98], 2), ([99], 2)]"
    "pushed demo_log = [([98], 2), ([99], 2)]"
    by (simp_all add: demo_log_def demo_log_one_def)
  from frontier_is_fifo
         [where s = demo_start and e = "([97], 1)" and rest = "[([98], 1)]"
            and W = demo_web and url = "[115]" and folder_path = "[111]" and max_depth = 2
            and log = "[]" and max_pages = 5 and k = 0 and j = 0 and ?s0.0 = demo_start
            and x = FrontierExhausted and s' = demo_final and log' = demo_log]
       q p demo_run
  show ?thesis by simp
qed

section \<open>Depth\<close>

lemma loop_body_entries:
  assumes "queue s \<noteq> []"
  shows "entries (after (loop_body W url folder_path max_depth k (s, log))) =
     entries (s, log) \<union> set (children W url folder_path max_depth k s)"
proof -
  obtain e rest where q: "queue s = e # rest"
    using assms by (cases "queue s") auto
  obtain s' log' where r: "after (loop_body W url folder_path max_depth k (s, log)) = (s', log')"
    by (cases "after (loop_body W url folder_path max_depth k (s, log))")
  have "queue s' = rest @ children W url folder_path max_depth k s"
    using loop_body_queue[of W url folder_path max_depth k s log] q r by simp
  moreover have "popped log' = popped log @ [e]"
    using loop_body_log[of W url folder_path max_depth k s log] q r
    by (simp add: body_events_popped)
  moreover have "pushed log' = pushed log @ children W url folder_path max_depth k s"
    using loop_body_log[of W url folder_path max_depth k s log] r
    by (simp add: body_events_pushed)
  ultimately show ?thesis
    unfolding r by (auto simp: entries_def q)
qed

lemma interrupted_body_entries:
  assumes "interrupted_body p W url folder_path max_depth k (s, log) = Some (s', log')"
  shows "entries (s', log') \<subseteq> entries (s, log) \<union> set (children W url folder_path max_depth k s)"
  using assms
proof (cases rule: interrupted_body_cases)
  case at_start
  then show ?thesis by (auto simp: entries_def)
next
  case (at_pop u d rest)
  then show ?thesis by (auto simp: entries_def)
next
  case (at_mark u d rest)
  then show ?thesis by (auto simp: entries_def)
next
  case (at_count u d rest)
  then show ?thesis by (auto simp: entries_def)
next
  case (at_write u d rest)
  then show ?thesis by (auto simp: entries_def)
next
  case (at_saved u d rest)
  then show ?thesis by (auto simp: entries_def)
next
  case (at_enqueue u d rest n new)
  have "set new \<subseteq> set (children W url folder_path max_depth k s)"
    unfolding children_process[OF at_enqueue(2,3,4,5)] at_enqueue(6)
    by (auto dest: in_set_takeD)
  moreover have "entries (s', log') = entries (s, log) \<union> set new"
    using at_enqueue(2,7,11) by (auto simp: entries_def)
  ultimately show ?thesis by blast
qed

lemma depth_ok_grow:
  assumes "depth_ok max_depth (s, log)"
    and "entries sl' \<subseteq> entries (s, log) \<union> set (children W url folder_path max_depth k s)"
  shows "depth_ok max_depth sl'"
proof (cases "queue s")
  case Nil
  then have "children W url folder_path max_depth k s = []" by (simp add: children_def)
  with assms show ?thesis unfolding depth_ok_def by auto
next
  case (Cons e rest)
  obtain u d where e: "e = (u, d)" by (cases e)
  have "(u, d) \<in> entries (s, log)" using Cons e by (simp add: entries_def)
  then have d: "1 \<le> d" using assms(1) unfolding depth_ok_def by blast
  have "1 \<le> d' \<and> d' \<le> max_depth"
    if "(l, d') \<in> set (children W url folder_path max_depth k s)" for l d'
    using children_depth[of s u d rest l d' W url folder_path max_depth k] that Cons e d by auto
  with assms show ?thesis unfolding depth_ok_def by blast
qed

lemma depth_ok_loop_body:
  assumes "depth_ok max_depth (s, log)" "queue s \<noteq> []"
  shows "depth_ok max_depth (after (loop_body W url folder_path max_depth k (s, log)))"
  using depth_ok_grow[OF assms(1),
          of "after (loop_body W url folder_path max_depth k (s, log))" W url folder_path k]
    loop_body_entries[OF assms(2), of W url folder_path max_depth k log]
  by simp

lemma depth_ok_interrupted_body:
  assumes "depth_ok max_depth sl"
    "interrupted_body p W url folder_path max_depth k sl = Some sl'"
  shows "depth_ok max_depth sl'"
  using assms depth_ok_grow[of max_depth "fst sl" "snd sl" sl' W url folder_path k]
    interrupted_body_entries[of p W url folder_path max_depth k "fst sl" "snd sl" "fst sl'" "snd sl'"]
  by simp

lemma crawl_loop_depth_ok:
  assumes "depth_ok max_depth (s0, [])"
  shows "depth_ok max_depth (snd (crawl_loop W url folder_path max_pages max_depth k (s0, [])))"
proof (rule crawl_loop_invariant[where I = "depth_ok max_depth"])
  show "depth_ok max_depth (s0, [])" by (rule assms)
next
  fix s log k assume "depth_ok max_depth (s, log)" "queue s \<noteq> []"
  then show "depth_ok max_depth (after (loop_body W url folder_path max_depth k (s, log)))"
    by (rule depth_ok_loop_body)
next
  fix p k sl sl' assume "depth_ok max_depth sl"
    "interrupted_body p W url folder_path max_depth k sl = Some sl'"
  then show "depth_ok max_depth sl'" by (rule depth_ok_interrupted_body)
qed

text \<open>
  C5. Seed entries have depth 1. Every entry enqueued while processing an entry of depth
  \<open>d\<close> has depth \<open>d + 1\<close>, and is enqueued only when \<open>d < max_depth\<close>. So when every entry
  of the initial queue has a depth between 1 and \<open>max_depth\<close>, so has every entry that is
  ever queued, popped or pushed, however the loop is left; in particular in every run that
  starts fresh with \<open>1 \<le> max_depth\<close>.
\<close>

theorem depth_never_exceeds_max_depth:
  "(\<forall>l d. (l, d) \<in> set (queue (fresh_state W url)) \<longrightarrow> d = 1) \<and>
   (queue s = (u, d) # rest \<longrightarrow>
      (\<forall>l d'. (l, d') \<in> set (pushed (snd (after (loop_body W url folder_path max_depth j (s, []))))) \<longrightarrow>
         d' = d + 1 \<and> d < max_depth)) \<and>
   ((\<forall>l d. (l, d) \<in> set (queue s0) \<longrightarrow> 1 \<le> d \<and> d \<le> max_depth) \<longrightarrow>
    crawl_loop W url folder_path max_pages max_depth k (s0, []) = (x, s', log') \<longrightarrow>
      (\<forall>l d. (l, d) \<in> set (queue s') \<union> set (popped log') \<union> set (pushed log') \<longrightarrow>
         1 \<le> d \<and> d \<le> max_depth)) \<and>
   (1 \<le> max_depth \<longrightarrow>
    create_nepali_corpus W url folder_path max_pages max_depth state_file False =
      Inr (x1, s1, log1) \<longrightarrow>
      (\<forall>l d. (l, d) \<in> set (queue s1) \<union> set (popped log1) \<union> set (pushed log1) \<longrightarrow>
         1 \<le> d \<and> d \<le> max_depth))"
proof -
  have 1: "\<forall>l d. (l, d) \<in> set (queue (fresh_state W url)) \<longrightarrow> d = 1"
    by (auto simp: fresh_state_def)
  have 2: "\<forall>l d'. (l, d') \<in> set (pushed (snd (after (loop_body W url folder_path max_depth j (s, []))))) \<longrightarrow>
         d' = d + 1 \<and> d < max_depth" if "queue s = (u, d) # rest"
    using children_depth[OF that, of _ _ W url folder_path max_depth j]
    by (auto simp: loop_body_log body_events_pushed)
  have 3: "\<forall>l d. (l, d) \<in> set (queue s') \<union> set (popped log') \<union> set (pushed log') \<longrightarrow>
         1 \<le> d \<and> d \<le> max_depth"
    if a: "\<forall>l d. (l, d) \<in> set (queue s0) \<longrightarrow> 1 \<le> d \<and> d \<le> max_depth"
      and b: "crawl_loop W url folder_path max_pages max_depth k (s0, []) = (x, s', log')"
    for s0 k x s' log'
  proof -
    have "depth_ok max_depth (s0, [])"
      using a by (simp add: depth_ok_def entries_def)
    from crawl_loop_depth_ok[OF this, of W url folder_path max_pages k]
    show ?thesis
      unfolding b by (simp add: depth_ok_def entries_def)
  qed
  have 4: "\<forall>l d. (l, d) \<in> set (queue s1) \<union> set (popped log1) \<union> set (pushed log1) \<longrightarrow>
         1 \<le> d \<and> d \<le> max_depth"
    if a: "1 \<le> max_depth"
      and b: "create_nepali_corpus W url folder_path max_pages max_depth state_file False =
        Inr (x1, s1, log1)"
  proof -
    from b obtain log where
      l: "crawl_loop W url folder_path max_pages max_depth 0 (fresh_state W url, []) =
            (x1, s1, log)"
      and log1: "log1 = log @ [SaveState s1]"
      by (auto simp: create_nepali_corpus_def initial_state_def split: prod.splits)
    have "\<forall>l d. (l, d) \<in> set (queue (fresh_state W url)) \<longrightarrow> 1 \<le> d \<and> d \<le> max_depth"
      using 1 a by auto
    from 3[OF this l] show ?thesis by (simp add: log1)
  qed
  from 1 2 3[of s0 k x s' log'] 4 show ?thesis by blast
qed

theorem depth_never_exceeds_max_depth_witness:
  "queue (fresh_state demo_web [115]) = [([97], 1), ([98], 1)] \<and>
   pushed (snd (after (loop_body demo_web [115] [111] 2 0 (demo_start, [])))) =
     [([98], 1 + 1), ([99], 1 + 1)] \<and>
   (1::int) < 2 \<and>
   list_all (\<lambda>(l, d). 1 \<le> d \<and> d \<le> 2)
     (queue demo_final @ popped demo_log @ pushed demo_log) \<and>
   create_nepali_corpus demo_web [115] [111] 5 2 Missing False =
     Inr (FrontierExhausted, demo_final, demo_log @ [SaveState demo_final]) \<and>
   list_all (\<lambda>(l, d). 1 \<le> d \<and> d \<le> 2)
     (queue demo_final @ popped (demo_log @ [SaveState demo_final]) @
      pushed (demo_log @ [SaveState demo_final]))"
proof -
  have q: "queue demo_start = ([97], 1) # [([98], 1)]"
    "\<forall>l d. (l, d) \<in> set (queue demo_start) \<longrightarrow> 1 \<le> d \<and> d \<le> 2"
    "(1::int) \<le> 2"
    by (simp_all add: demo_start_def)
  have p: "pushed (snd (after (loop_body demo_web [115] [111] 2 0 (demo_start, [])))) =
      [([98], 2), ([99], 2)]"
    by (simp add: demo_body_one demo_log_one_def)
  have r: "create_nepali_corpus demo_web [115] [111] 5 2 Missing False =
     Inr (FrontierExhausted, demo_final, demo_log @ [SaveState demo_final])"
    by (simp add: create_nepali_corpus_def initial_state_def demo_fresh demo_run)
  from depth_never_exceeds_max_depth
         [where s = demo_start and u = "[97]" and d = 1 and rest = "[([98], 1)]"
            and W = demo_web and url = "[115]" and folder_path = "[111]" and max_depth = 2
            and max_pages = 5 and k = 0 and j = 0 and ?s0.0 = demo_start
            and x = FrontierExhausted and s' = demo_final and log' = demo_log
            and state_file = Missing and ?x1.0 = FrontierExhausted and ?s1.0 = demo_final
            and ?log1.0 = "demo_log @ [SaveState demo_final]"]
       q r demo_run
  have "\<forall>l d. (l, d) \<in> set (queue demo_final) \<union> set (popped demo_log) \<union> set (pushed demo_log)
          \<longrightarrow> 1 \<le> d \<and> d \<le> 2"
    "\<forall>l d. (l, d) \<in> set (queue demo_final) \<union> set (popped (demo_log @ [SaveState demo_final]))
            \<union> set (pushed (demo_log @ [SaveState demo_final]))
          \<longrightarrow> 1 \<le> d \<and> d \<le> 2"
    by blast+
  then have "list_all (\<lambda>(l, d). 1 \<le> d \<and> d \<le> 2)
     (queue demo_final @ popped demo_log @ pushed demo_log)"
    "list_all (\<lambda>(l, d). 1 \<le> d \<and> d \<le> 2)
     (queue demo_final @ popped (demo_log @ [SaveState demo_final]) @
      pushed (demo_log @ [SaveState demo_final]))"
    by (auto simp: list_all_iff)
  with p r demo_fresh show ?thesis by (simp add: demo_start_def)
qed

section \<open>The two counters\<close>

lemma counters_ok_interrupted_body:
  assumes "counters_ok sl" "interrupted_body p W url folder_path max_depth k sl = Some sl'"
  shows "counters_ok sl'"
proof -
  obtain s log s' log' where sl: "sl = (s, log)" "sl' = (s', log')"
    by (cases sl; cases sl') auto
  from assms(2)[unfolded sl] assms(1) show ?thesis
    by (cases rule: interrupted_body_cases) (auto simp: counters_ok_def sl)
qed

lemma counters_ok_loop_body:
  "counters_ok (s, log) \<Longrightarrow>
     counters_ok (after (loop_body W url folder_path max_depth k (s, log)))"
  by (cases "after (loop_body W url folder_path max_depth k (s, log))")
     (use loop_body_page_count[of W url folder_path max_depth k s log]
          loop_body_crawled_pages[of W url folder_path max_depth k s log]
      in \<open>auto simp: counters_ok_def split: list.splits if_splits\<close>)

lemma crawl_loop_counters_ok:
  assumes "counters_ok sl"
  shows "counters_ok (snd (crawl_loop W url folder_path max_pages max_depth k sl))"
proof (rule crawl_loop_invariant[where I = counters_ok])
  show "counters_ok sl" by (rule assms)
next
  fix s log k assume "counters_ok (s, log)"
  then show "counters_ok (after (loop_body W url folder_path max_depth k (s, log)))"
    by (rule counters_ok_loop_body)
next
  fix p k sl sl' assume "counters_ok sl"
    "interrupted_body p W url folder_path max_depth k sl = Some sl'"
  then show "counters_ok sl'" by (rule counters_ok_interrupted_body)
qed

text \<open>
  C6. \<open>page_count \<le> crawled_pages\<close> holds in the fresh state and every iteration keeps
  it, whether it ends or raises: an iteration raises \<open>page_count\<close> by at most what it
  raises \<open>crawled_pages\<close> by, which is at most one. So it holds when the loop is left,
  however it is left.
\<close>

theorem saved_never_exceeds_crawled:
  "page_count (fresh_state W url) \<le> crawled_pages (fresh_state W url) \<and>
   (page_count s \<le> crawled_pages s \<longrightarrow>
      page_count (fst (after (loop_body W url folder_path max_depth j (s, log))))
        \<le> crawled_pages (fst (after (loop_body W url folder_path max_depth j (s, log))))) \<and>
   page_count s \<le> page_count (fst (after (loop_body W url folder_path max_depth j (s, log)))) \<and>
   page_count (fst (after (loop_body W url folder_path max_depth j (s, log)))) - page_count s
     \<le> crawled_pages (fst (after (loop_body W url folder_path max_depth j (s, log))))
         - crawled_pages s \<and>
   crawled_pages (fst (after (loop_body W url folder_path max_depth j (s, log))))
     - crawled_pages s \<le> 1 \<and>
   (page_count s0 \<le> crawled_pages s0 \<longrightarrow>
    crawl_loop W url folder_path max_pages max_depth k (s0, log0) = (x, s', log') \<longrightarrow>
      page_count s' \<le> crawled_pages s')"
proof -
  have "page_count s0 \<le> crawled_pages s0 \<Longrightarrow>
      crawl_loop W url folder_path max_pages max_depth k (s0, log0) = (x, s', log') \<Longrightarrow>
      page_count s' \<le> crawled_pages s'"
    using crawl_loop_counters_ok[of "(s0, log0)" W url folder_path max_pages max_depth k]
    by (simp add: counters_ok_def)
  moreover have "page_count s \<le> crawled_pages s \<Longrightarrow>
      page_count (fst (after (loop_body W url folder_path max_depth j (s, log))))
        \<le> crawled_pages (fst (after (loop_body W url folder_path max_depth j (s, log))))"
    using counters_ok_loop_body[of s log W url folder_path max_depth j]
    by (simp add: counters_ok_def split_beta)
  ultimately show ?thesis
    by (auto simp: fresh_state_def loop_body_page_count loop_body_crawled_pages
        split: list.splits)
qed

theorem saved_never_exceeds_crawled_witness:
  "page_count (fresh_state demo_web [115]) \<le> crawled_pages (fresh_state demo_web [115]) \<and>
   page_count demo_start \<le> crawled_pages demo_start \<and>
   page_count (fst (after (loop_body demo_web [115] [111] 2 0 (demo_start, [])))) = 1 \<and>
   crawled_pages (fst (after (loop_body demo_web [115] [111] 2 0 (demo_start, [])))) = 1 \<and>
   page_count demo_final \<le> crawled_pages demo_final"
proof -
  have q: "page_count demo_start \<le> crawled_pages demo_start"
    by (simp add: demo_start_def)
  from saved_never_exceeds_crawled
         [where s = demo_start and W = demo_web and url = "[115]" and folder_path = "[111]"
            and max_depth = 2 and log = "[]" and max_pages = 5 and k = 0 and j = 0
            and ?s0.0 = demo_start and ?log0.0 = "[]"
            and x = FrontierExhausted and s' = demo_final and log' = demo_log]
       q demo_run
  show ?thesis by (simp add: demo_body_one demo_after_one_def)
qed

section \<open>What is written to the files\<close>

lemma clean_text_retained: "c \<in> set (clean_text text) \<Longrightarrow> retained c"
  by (simp add: clean_text_def)

lemma join_retained:
  "(\<And>x c. x \<in> set xs \<Longrightarrow> c \<in> set x \<Longrightarrow> retained c) \<Longrightarrow> c \<in> set (join [32] xs) \<Longrightarrow>
     retained c"
  by (induction "[32::nat]" xs rule: join.induct) (auto simp: retained_def isspace_def)

lemma extract_retained:
  assumes "extract_nepali_text_from_url W u = Some t" "c \<in> set t"
  shows "retained c"
proof -
  from assms(1) obtain ps where
    t: "t = join [32] (map clean_text
          (filter (\<lambda>text. text \<noteq> [] \<and> is_nepali W text) (map strip ps)))"
    by (auto simp: extract_nepali_text_from_url_def Let_def split: option.splits if_splits)
  show ?thesis
    using assms(2) unfolding t
    by (rule join_retained[rotated]) (auto dest: clean_text_retained)
qed

lemma accepted_Some: "accepted t \<Longrightarrow> \<exists>txt. t = Some txt"
  by (cases t) (auto simp: accepted_def)

lemma accept_events_written:
  "written (accept_events W folder_path s u rest) =
     (if accepted (extract_nepali_text_from_url W u)
      then [(folder_path, file_name (page_count s), the (extract_nepali_text_from_url W u))]
      else [])"
  by (simp add: accept_events_def)

lemma body_events_written:
  "written (body_events W url folder_path max_depth k s) =
     (case queue s of
        [] \<Rightarrow> []
      | (u, d) # rest \<Rightarrow>
          if u \<in> visited s \<or> d > max_depth then []
          else if iteration_raises W folder_path max_depth k s = None \<and>
                  accepted (extract_nepali_text_from_url W u)
          then [(folder_path, file_name (page_count s), the (extract_nepali_text_from_url W u))]
          else [])"
  by (auto simp: body_events_def accept_events_written split: list.splits)

lemma accepted_text_retained:
  "accepted (extract_nepali_text_from_url W u) \<Longrightarrow>
     c \<in> set (the (extract_nepali_text_from_url W u)) \<Longrightarrow> retained c"
  using accepted_Some[of "extract_nepali_text_from_url W u"] extract_retained[of W u _ c]
  by auto

lemma files_clean_loop_body:
  assumes "files_clean (s, log)"
  shows "files_clean (after (loop_body W url folder_path max_depth k (s, log)))"
proof -
  have "written (snd (after (loop_body W url folder_path max_depth k (s, log)))) =
      written log @ written (body_events W url folder_path max_depth k s)"
    by (simp add: loop_body_log)
  then show ?thesis
    using assms accepted_text_retained[of W]
    by (cases "after (loop_body W url folder_path max_depth k (s, log))")
       (auto simp: files_clean_def body_events_written split: list.splits if_splits)
qed

lemma files_clean_interrupted_body:
  assumes "files_clean sl" "interrupted_body p W url folder_path max_depth k sl = Some sl'"
  shows "files_clean sl'"
proof -
  obtain s log s' log' where sl: "sl = (s, log)" "sl' = (s', log')"
    by (cases sl; cases sl') auto
  from assms(2)[unfolded sl] assms(1) accepted_text_retained[of W] show ?thesis
    by (cases rule: interrupted_body_cases)
       (auto simp: files_clean_def sl accept_events_written split: if_splits)
qed

lemma crawl_loop_files_clean:
  assumes "files_clean sl"
  shows "files_clean (snd (crawl_loop W url folder_path max_pages max_depth k sl))"
proof (rule crawl_loop_invariant[where I = files_clean])
  show "files_clean sl" by (rule assms)
next
  fix s log k assume "files_clean (s, log)"
  then show "files_clean (after (loop_body W url folder_path max_depth k (s, log)))"
    by (rule files_clean_loop_body)
next
  fix p k sl sl' assume "files_clean sl"
    "interrupted_body p W url folder_path max_depth k sl = Some sl'"
  then show "files_clean sl'" by (rule files_clean_interrupted_body)
qed

text \<open>
  C10. \<open>clean_text\<close> keeps only characters of the Devanagari block, whitespace, the danda,
  \<open>?\<close> and \<open>!\<close>; and every text that a run writes to a file consists of such characters
  only, however the run ends.
\<close>

theorem saved_text_is_devanagari_whitespace_punctuation:
  "(\<forall>c. c \<in> set (clean_text raw) \<longrightarrow>
      devanagari c \<or> isspace c \<or> c = 0x964 \<or> c = 63 \<or> c = 33) \<and>
   (create_nepali_corpus W url folder_path max_pages max_depth state_file resume
      = Inr (x, s', log') \<longrightarrow>
    (\<forall>f n t c. (f, n, t) \<in> set (written log') \<longrightarrow> c \<in> set t \<longrightarrow>
       devanagari c \<or> isspace c \<or> c = 0x964 \<or> c = 63 \<or> c = 33))"
proof -
  have 1: "\<forall>c. c \<in> set (clean_text raw) \<longrightarrow>
      devanagari c \<or> isspace c \<or> c = 0x964 \<or> c = 63 \<or> c = 33"
    using clean_text_retained[of _ raw] by (auto simp: retained_def)
  have 2: "\<forall>f n t c. (f, n, t) \<in> set (written log') \<longrightarrow> c \<in> set t \<longrightarrow>
       devanagari c \<or> isspace c \<or> c = 0x964 \<or> c = 63 \<or> c = 33"
    if r: "create_nepali_corpus W url folder_path max_pages max_depth state_file resume
      = Inr (x, s', log')"
  proof -
    from r obtain s0 log where
      l: "crawl_loop W url folder_path max_pages max_depth 0 (s0, []) = (x, s', log)"
      and log': "log' = log @ [SaveState s']"
      by (auto simp: create_nepali_corpus_def split: sum.splits prod.splits)
    have "files_clean (s0, [])" by (simp add: files_clean_def)
    from crawl_loop_files_clean[OF this, of W url folder_path max_pages max_depth 0]
    have "files_clean (s', log)" by (simp add: l)
    then show ?thesis
      unfolding log' files_clean_def retained_def by simp
  qed
  from 1 2 show ?thesis by blast
qed

theorem saved_text_is_devanagari_whitespace_punctuation_witness:
  "clean_text [120, 32, 0x928, 0x947, 10, 0x915, 46] = demo_text \<and>
   list_all (\<lambda>c. devanagari c \<or> isspace c \<or> c = 0x964 \<or> c = 63 \<or> c = 33)
     (clean_text [120, 32, 0x928, 0x947, 10, 0x915, 46]) \<and>
   create_nepali_corpus demo_web [115] [111] 5 2 Missing False =
     Inr (FrontierExhausted, demo_final, demo_log @ [SaveState demo_final]) \<and>
   written (demo_log @ [SaveState demo_final]) = [([111], ascii ''page_1.txt'', demo_text)] \<and>
   list_all (\<lambda>c. devanagari c \<or> isspace c \<or> c = 0x964 \<or> c = 63 \<or> c = 33) demo_text"
proof -
  have c: "clean_text [120, 32, 0x928, 0x947, 10, 0x915, 46] = demo_text"
    by (simp add: clean_text_def retained_def devanagari_def isspace_def demo_text_def)
  have r: "create_nepali_corpus demo_web [115] [111] 5 2 Missing False =
     Inr (FrontierExhausted, demo_final, demo_log @ [SaveState demo_final])"
    by (simp add: create_nepali_corpus_def initial_state_def demo_fresh demo_run)
  have w: "written (demo_log @ [SaveState demo_final]) = [([111], ascii ''page_1.txt'', demo_text)]"
    by (simp add: demo_log_def demo_log_one_def)
  from saved_text_is_devanagari_whitespace_punctuation
         [where raw = "[120, 32, 0x928, 0x947, 10, 0x915, 46]" and W = demo_web
            and url = "[115]" and folder_path = "[111]" and max_pages = 5 and max_depth = 2
            and state_file = Missing and resume = False and x = FrontierExhausted
            and s' = demo_final and log' = "demo_log @ [SaveState demo_final]"]
       r w
  have "\<forall>c. c \<in> set (clean_text [120, 32, 0x928, 0x947, 10, 0x915, 46]) \<longrightarrow>
      devanagari c \<or> isspace c \<or> c = 0x964 \<or> c = 63 \<or> c = 33"
    "\<forall>c. c \<in> set demo_text \<longrightarrow> devanagari c \<or> isspace c \<or> c = 0x964 \<or> c = 63 \<or> c = 33"
    by simp_all
  then show ?thesis
    using c r w by (simp add: list_all_iff)
qed

section \<open>Checkpoints\<close>

lemma iteration_raises_None:
  "queue s = (u, d) # rest \<Longrightarrow> u \<notin> visited s \<Longrightarrow> d \<le> max_depth \<Longrightarrow>
     iteration_raises W folder_path max_depth k s = None \<longleftrightarrow>
       \<not> rate_raises W k (crawled_pages s + 1) \<and>
       \<not> (accepted (extract_nepali_text_from_url W u) \<and> makedirs_raises W k folder_path)"
  by (auto simp: iteration_raises_def)

lemma accept_events_checkpoints:
  "checkpoints (accept_events W folder_path s u rest) =
     (if accepted (extract_nepali_text_from_url W u) \<and> (page_count s + 1) mod SAVE_INTERVAL = 0
      then [\<lparr>queue = rest, visited = insert u (visited s), page_count = page_count s + 1,
             crawled_pages = crawled_pages s + 1\<rparr>]
      else [])"
  by (simp add: accept_events_def)

lemma body_events_checkpoints:
  "checkpoints (body_events W url folder_path max_depth k s) =
     (case queue s of
        [] \<Rightarrow> []
      | (u, d) # rest \<Rightarrow>
          if u \<notin> visited s \<and> d \<le> max_depth \<and> accepted (extract_nepali_text_from_url W u) \<and>
             \<not> rate_raises W k (crawled_pages s + 1) \<and> \<not> makedirs_raises W k folder_path \<and>
             (page_count s + 1) mod SAVE_INTERVAL = 0
          then [\<lparr>queue = rest, visited = insert u (visited s), page_count = page_count s + 1,
                 crawled_pages = crawled_pages s + 1\<rparr>]
          else [])"
  by (auto simp: body_events_def accept_events_checkpoints iteration_raises_def
      split: list.splits)

lemma loop_body_state:
  "queue s = (u, d) # rest \<Longrightarrow>
     (fst (after (loop_body W url folder_path max_depth k (s, log))))\<lparr>queue := rest\<rparr> =
       \<lparr>queue = rest,
        visited = visited (fst (after (loop_body W url folder_path max_depth k (s, log)))),
        page_count = page_count (fst (after (loop_body W url folder_path max_depth k (s, log)))),
        crawled_pages =
          crawled_pages (fst (after (loop_body W url folder_path max_depth k (s, log))))\<rparr>"
  by (cases "fst (after (loop_body W url folder_path max_depth k (s, log)))") simp

text \<open>
  C7. An iteration hands a state to \<open>save_state\<close> exactly when it accepts a page, writes it
  (nothing was raised before) and the new page count is a multiple of \<open>SAVE_INTERVAL\<close>; in
  other words, exactly when it raises the page count to a multiple of \<open>SAVE_INTERVAL\<close>. That
  state is the whole state at that point: the queue after the pop, the visited set with the
  URL, both counters raised. Whenever the initial state is built, the loop is left (as one
  of \<open>BudgetReached\<close>, \<open>FrontierExhausted\<close>, \<open>StopRequested\<close>, \<open>Interrupted\<close>, \<open>Raised\<close>), and the
  last thing the run does is hand the state it was left in to \<open>save_state\<close>.
\<close>

theorem checkpoint_at_interval_and_on_every_exit:
  "(queue s = (u, d) # rest \<longrightarrow>
      checkpoints (snd (after (loop_body W url folder_path max_depth j (s, log)))) =
        checkpoints log @
        (if u \<notin> visited s \<and> d \<le> max_depth \<and> accepted (extract_nepali_text_from_url W u) \<and>
            \<not> rate_raises W j (crawled_pages s + 1) \<and> \<not> makedirs_raises W j folder_path \<and>
            (page_count s + 1) mod SAVE_INTERVAL = 0
         then [\<lparr>queue = rest, visited = insert u (visited s), page_count = page_count s + 1,
                crawled_pages = crawled_pages s + 1\<rparr>]
         else []) \<and>
      checkpoints (snd (after (loop_body W url folder_path max_depth j (s, log)))) =
        checkpoints log @
        (if page_count (fst (after (loop_body W url folder_path max_depth j (s, log)))) =
              page_count s + 1 \<and>
            page_count (fst (after (loop_body W url folder_path max_depth j (s, log))))
              mod SAVE_INTERVAL = 0
         then [(fst (after (loop_body W url folder_path max_depth j (s, log))))\<lparr>queue := rest\<rparr>]
         else [])) \<and>
   (initial_state W url state_file resume = Inr s0 \<longrightarrow>
      (\<exists>x s' log.
         crawl_loop W url folder_path max_pages max_depth 0 (s0, []) = (x, s', log) \<and>
         create_nepali_corpus W url folder_path max_pages max_depth state_file resume =
           Inr (x, s', log @ [SaveState s']))) \<and>
   (create_nepali_corpus W url folder_path max_pages max_depth state_file resume =
      Inr (x, s', log') \<longrightarrow>
      log' \<noteq> [] \<and> last log' = SaveState s')"
proof -
  let ?r = "after (loop_body W url folder_path max_depth j (s, log))"
  have 1: "checkpoints (snd ?r) =
        checkpoints log @
        (if u \<notin> visited s \<and> d \<le> max_depth \<and> accepted (extract_nepali_text_from_url W u) \<and>
            \<not> rate_raises W j (crawled_pages s + 1) \<and> \<not> makedirs_raises W j folder_path \<and>
            (page_count s + 1) mod SAVE_INTERVAL = 0
         then [\<lparr>queue = rest, visited = insert u (visited s), page_count = page_count s + 1,
                crawled_pages = crawled_pages s + 1\<rparr>]
         else [])" if "queue s = (u, d) # rest"
    using that by (simp add: loop_body_log body_events_checkpoints)
  have 2: "checkpoints (snd ?r) =
        checkpoints log @
        (if page_count (fst ?r) = page_count s + 1 \<and> page_count (fst ?r) mod SAVE_INTERVAL = 0
         then [(fst ?r)\<lparr>queue := rest\<rparr>]
         else [])" if q: "queue s = (u, d) # rest"
    unfolding 1[OF q] loop_body_state[OF q]
    using q
    by (auto simp: loop_body_page_count loop_body_visited loop_body_crawled_pages
        iteration_raises_def)
  have 3: "initial_state W url state_file resume = Inr s0 \<longrightarrow>
      (\<exists>x s' log.
         crawl_loop W url folder_path max_pages max_depth 0 (s0, []) = (x, s', log) \<and>
         create_nepali_corpus W url folder_path max_pages max_depth state_file resume =
           Inr (x, s', log @ [SaveState s']))"
    by (cases "crawl_loop W url folder_path max_pages max_depth 0 (s0, [])")
       (auto simp: create_nepali_corpus_def)
  have 4: "create_nepali_corpus W url folder_path max_pages max_depth state_file resume =
      Inr (x, s', log') \<longrightarrow> log' \<noteq> [] \<and> last log' = SaveState s'"
    by (auto simp: create_nepali_corpus_def split: sum.splits prod.splits)
  from 1 2 3 4 show ?thesis by blast
qed

theorem checkpoint_at_interval_and_on_every_exit_witness:
  "checkpoints (snd (after (loop_body demo_web [115] [111] 2 0 (demo_before_interval, [])))) =
     [\<lparr>queue = [], visited = {[97]}, page_count = 100, crawled_pages = 121\<rparr>] \<and>
   checkpoints (snd (after (loop_body demo_web [115] [111] 2 0 (demo_start, [])))) = [] \<and>
   create_nepali_corpus demo_web [115] [111] 5 2 Missing False =
     Inr (FrontierExhausted, demo_final, demo_log @ [SaveState demo_final]) \<and>
   last (demo_log @ [SaveState demo_final]) = SaveState demo_final \<and>
   create_nepali_corpus demo_web [115] [111] 1 2 Missing False =
     Inr (BudgetReached, demo_after_one, demo_log_one @ [SaveState demo_after_one]) \<and>
   last (demo_log_one @ [SaveState demo_after_one]) = SaveState demo_after_one \<and>
   (\<exists>s' log.
      create_nepali_corpus (demo_web\<lparr>shutdown_flag := \<lambda>k. 0 < k\<rparr>) [115] [111] 5 2 Missing False =
        Inr (StopRequested, s', log @ [SaveState s'])) \<and>
   (\<exists>s' log.
      create_nepali_corpus
        (demo_web\<lparr>keyboard_interrupt := \<lambda>k. if k = 0 then Some AfterWrite else None\<rparr>)
        [115] [111] 5 2 Missing False =
        Inr (Interrupted, s', log @ [SaveState s'])) \<and>
   (\<exists>s' log.
      create_nepali_corpus demo_web [115] [] 5 2 Missing False =
        Inr (Raised OSError, s', log @ [SaveState s']))"
proof -
  let ?stop = "demo_web\<lparr>shutdown_flag := \<lambda>k. 0 < k\<rparr>"
  let ?intr = "demo_web\<lparr>keyboard_interrupt := \<lambda>k. if k = 0 then Some AfterWrite else None\<rparr>"
  have i: "initial_state demo_web [115] Missing False = Inr demo_start"
    "initial_state ?stop [115] Missing False = Inr demo_start"
    "initial_state ?intr [115] Missing False = Inr demo_start"
    by (simp_all add: initial_state_def demo_fresh[symmetric] fresh_state_def
        collect_initial_links_def demo_web_def)
  have q: "queue demo_before_interval = ([97], 2) # []" "queue demo_start = ([97], 1) # [([98], 1)]"
    by (simp_all add: demo_before_interval_def demo_start_def)
  have c: "[97] \<notin> visited demo_before_interval \<and> (2::int) \<le> 2 \<and>
      accepted (extract_nepali_text_from_url demo_web [97]) \<and>
      \<not> rate_raises demo_web 0 (crawled_pages demo_before_interval + 1) \<and>
      \<not> makedirs_raises demo_web 0 [111] \<and>
      (page_count demo_before_interval + 1) mod SAVE_INTERVAL = 0"
    "(page_count demo_start + 1) mod SAVE_INTERVAL \<noteq> 0"
    by (simp_all add: demo_before_interval_def demo_start_def demo_extract_a demo_accepted_a
        SAVE_INTERVAL_def demo_quiet rate_raises_def float_overflow_def)
  note t = checkpoint_at_interval_and_on_every_exit
  from t[where s = demo_before_interval and u = "[97]" and d = 2 and rest = "[]"
           and W = demo_web and url = "[115]" and folder_path = "[111]" and max_depth = 2
           and log = "[]" and max_pages = 5 and state_file = Missing and resume = False
           and ?s0.0 = demo_start and x = FrontierExhausted and s' = demo_final and j = 0
           and log' = "demo_log @ [SaveState demo_final]"]
       q c i(1) demo_run
  have 1: "checkpoints (snd (after (loop_body demo_web [115] [111] 2 0 (demo_before_interval, [])))) =
     [\<lparr>queue = [], visited = {[97]}, page_count = 100, crawled_pages = 121\<rparr>]"
    "create_nepali_corpus demo_web [115] [111] 5 2 Missing False =
     Inr (FrontierExhausted, demo_final, demo_log @ [SaveState demo_final])"
    "last (demo_log @ [SaveState demo_final]) = SaveState demo_final"
    by (simp_all add: demo_before_interval_def)
  from t[where s = demo_start and u = "[97]" and d = 1 and rest = "[([98], 1)]"
           and W = demo_web and url = "[115]" and folder_path = "[111]" and max_depth = 2
           and log = "[]" and max_pages = 1 and state_file = Missing and resume = False
           and ?s0.0 = demo_start and x = BudgetReached and s' = demo_after_one and j = 0
           and log' = "demo_log_one @ [SaveState demo_after_one]"]
       q c i(1) demo_run_budget
  have 2: "checkpoints (snd (after (loop_body demo_web [115] [111] 2 0 (demo_start, [])))) = []"
    "create_nepali_corpus demo_web [115] [111] 1 2 Missing False =
     Inr (BudgetReached, demo_after_one, demo_log_one @ [SaveState demo_after_one])"
    "last (demo_log_one @ [SaveState demo_after_one]) = SaveState demo_after_one"
    by simp_all
  from t[where W = ?stop and url = "[115]" and folder_path = "[111]" and max_depth = 2
           and max_pages = 5 and state_file = Missing and resume = False
           and ?s0.0 = demo_start]
       i(2) demo_run_stop
  have 3: "\<exists>s' log.
      create_nepali_corpus ?stop [115] [111] 5 2 Missing False =
        Inr (StopRequested, s', log @ [SaveState s'])"
    by simp
  from t[where W = ?intr and url = "[115]" and folder_path = "[111]" and max_depth = 2
           and max_pages = 5 and state_file = Missing and resume = False
           and ?s0.0 = demo_start]
       i(3) demo_run_interrupt
  have 4: "\<exists>s' log.
      create_nepali_corpus ?intr [115] [111] 5 2 Missing False =
        Inr (Interrupted, s', log @ [SaveState s'])"
    by simp
  from t[where W = demo_web and url = "[115]" and folder_path = "[]" and max_depth = 2
           and max_pages = 5 and state_file = Missing and resume = False
           and ?s0.0 = demo_start]
       i(1) demo_run_raise
  have 5: "\<exists>s' log.
      create_nepali_corpus demo_web [115] [] 5 2 Missing False =
        Inr (Raised OSError, s', log @ [SaveState s'])"
    by simp
  from 1 2 3 4 5 show ?thesis by simp
qed

section \<open>File names\<close>

lemma digits_not_Nil [simp]: "digits n \<noteq> []"
  by (subst digits.simps) simp










section \<open>The files of a run\<close>

lemma accepted_urls_snoc:
  "accepted_urls W (us @ [u]) =
     accepted_urls W us @ (if accepted (extract_nepali_text_from_url W u) then [u] else [])"
  by (simp add: accepted_urls_def)

lemma saved_files_Nil [simp]: "saved_files W folder_path p0 [] = []"
  by (simp add: saved_files_def accepted_urls_def)

lemma length_saved_files [simp]:
  "length (saved_files W folder_path p0 us) = length (accepted_urls W us)"
  by (simp add: saved_files_def)

lemma saved_files_snoc:
  "saved_files W folder_path p0 (us @ [u]) =
     saved_files W folder_path p0 us @
     (if accepted (extract_nepali_text_from_url W u)
      then [(folder_path, file_name (p0 + int (length (accepted_urls W us))),
             the (extract_nepali_text_from_url W u))]
      else [])"
  by (simp add: saved_files_def accepted_urls_snoc enumerate_append_eq)




lemma saved_ok_loop_body:
  assumes "saved_ok W folder_path p0 c0 (s, log)"
    "loop_body W url folder_path max_depth k (s, log) = Inr sl'"
  shows "saved_ok W folder_path p0 c0 sl'"
proof -
  from assms(2) have r: "raised (loop_body W url folder_path max_depth k (s, log)) = None"
    and a: "after (loop_body W url folder_path max_depth k (s, log)) = sl'"
    by simp_all
  from r have n: "iteration_raises W folder_path max_depth k s = None"
    by (simp add: loop_body_raised)
  then obtain u d rest where q: "queue s = (u, d) # rest"
    by (cases "queue s") (auto simp: iteration_raises_def)
  obtain s' log' where sl': "sl' = (s', log')" by (cases sl')
  have l: "log' = log @ body_events W url folder_path max_depth k s"
    using loop_body_log[of W url folder_path max_depth k s log] a sl' by simp
  have p: "page_count s' =
      (if u \<in> visited s \<or> d > max_depth then page_count s
       else if accepted (extract_nepali_text_from_url W u) then page_count s + 1
       else page_count s)"
    using loop_body_page_count[of W url folder_path max_depth k s log] a sl' q n by simp
  have c: "crawled_pages s' =
      (if u \<in> visited s \<or> d > max_depth then crawled_pages s else crawled_pages s + 1)"
    using loop_body_crawled_pages[of W url folder_path max_depth k s log] a sl' q by simp
  from assms(1) show ?thesis
    unfolding sl' l
    by (auto simp: saved_ok_def p c q n body_events_marked body_events_written
        saved_files_snoc accepted_urls_snoc)
qed

text \<open>
  What holds of the files when the loop is left: they are the texts of accepted pages under
  sequential names; the page count is their number, or one less when an interrupt struck
  between the writing and the counting.
\<close>

lemma crawl_loop_saved:
  assumes "crawl_loop W url folder_path max_pages max_depth k (s0, []) = (x, s', log')"
  shows "(\<exists>us. written log' = saved_files W folder_path (page_count s0) us) \<and>
     (x \<noteq> Interrupted \<longrightarrow> page_count s' = page_count s0 + int (length (written log'))) \<and>
     page_count s' \<le> page_count s0 + int (length (written log')) \<and>
     page_count s0 + int (length (written log')) \<le> page_count s' + 1 \<and>
     page_count s' \<le> page_count s0 + int (length (accepted_urls W (marked log'))) \<and>
     (x = BudgetReached \<or> x = FrontierExhausted \<or> x = StopRequested \<longrightarrow>
        saved_ok W folder_path (page_count s0) (crawled_pages s0) (s', log'))"
proof -
  let ?p0 = "page_count s0"
  let ?I = "saved_ok W folder_path ?p0 (crawled_pages s0)"
  let ?Q = "\<lambda>r. (\<exists>us. written (snd (snd r)) = saved_files W folder_path ?p0 us) \<and>
     (fst r \<noteq> Interrupted \<longrightarrow>
        page_count (fst (snd r)) = ?p0 + int (length (written (snd (snd r))))) \<and>
     page_count (fst (snd r)) \<le> ?p0 + int (length (written (snd (snd r)))) \<and>
     ?p0 + int (length (written (snd (snd r)))) \<le> page_count (fst (snd r)) + 1 \<and>
     page_count (fst (snd r)) \<le> ?p0 + int (length (accepted_urls W (marked (snd (snd r))))) \<and>
     (fst r = BudgetReached \<or> fst r = FrontierExhausted \<or> fst r = StopRequested \<longrightarrow>
        ?I (snd r))"
  have leave: "?Q (y, s, log)" if "?I (s, log)" for y s log
    using that by (auto simp: saved_ok_def)
  have "?Q (crawl_loop W url folder_path max_pages max_depth k (s0, []))"
  proof (rule crawl_loop_rule[where I = ?I and Q = ?Q])
    show "?I (s0, [])" by (simp add: saved_ok_def accepted_urls_def)
  next
    fix s log sl' k
    assume "?I (s, log)" "loop_body W url folder_path max_depth k (s, log) = Inr sl'"
    then show "?I sl'" by (rule saved_ok_loop_body)
  next
    fix s :: crawl_state and log :: "event list" and e sl' k
    assume i: "?I (s, log)" and q: "queue s \<noteq> []"
      and r: "loop_body W url folder_path max_depth k (s, log) = Inl (e, sl')"
    from r have n: "iteration_raises W folder_path max_depth k s = Some e"
      using loop_body_raised[of W url folder_path max_depth k s log] by simp
    from r have a: "after (loop_body W url folder_path max_depth k (s, log)) = sl'" by simp
    obtain s' log' where sl': "sl' = (s', log')" by (cases sl')
    obtain u d rest where qs: "queue s = (u, d) # rest"
      using q by (cases "queue s") auto
    have "log' = log @ body_events W url folder_path max_depth k s"
      using loop_body_log[of W url folder_path max_depth k s log] a sl' by simp
    moreover have "page_count s' = page_count s"
      using loop_body_page_count[of W url folder_path max_depth k s log] a sl' n qs by simp
    ultimately show "?Q (Raised e, sl')"
      using i n qs
      by (auto simp: sl' saved_ok_def body_events_written body_events_marked
          accepted_urls_snoc)
  next
    fix p sl' k and s :: crawl_state and log :: "event list"
    assume i: "?I (s, log)"
      and b: "interrupted_body p W url folder_path max_depth k (s, log) = Some sl'"
    obtain s' log' where sl': "sl' = (s', log')" by (cases sl')
    from b[unfolded sl'] show "?Q (Interrupted, sl')"
    proof (cases rule: interrupted_body_cases)
      case at_start
      with i show ?thesis by (auto simp: sl' saved_ok_def)
    next
      case (at_pop u d rest)
      with i show ?thesis by (auto simp: sl' saved_ok_def)
    next
      case (at_mark u d rest)
      with i show ?thesis by (auto simp: sl' saved_ok_def accepted_urls_snoc)
    next
      case (at_count u d rest)
      with i show ?thesis by (auto simp: sl' saved_ok_def accepted_urls_snoc)
    next
      case (at_write u d rest)
      have "written log' = saved_files W folder_path ?p0 (marked log @ [u])"
        using i at_write by (simp add: saved_ok_def saved_files_snoc)
      then have "\<exists>us. written log' = saved_files W folder_path ?p0 us" by blast
      with i at_write show ?thesis
        by (simp add: sl' saved_ok_def accepted_urls_snoc)
    next
      case (at_saved u d rest)
      have "written log' = saved_files W folder_path ?p0 (marked log @ [u])"
        using i at_saved by (simp add: saved_ok_def saved_files_snoc)
      then have "\<exists>us. written log' = saved_files W folder_path ?p0 us" by blast
      with i at_saved show ?thesis
        by (simp add: sl' saved_ok_def accepted_urls_snoc)
    next
      case (at_enqueue u d rest n new)
      have "written log' = saved_files W folder_path ?p0 (marked log @ [u])"
        using i at_enqueue by (simp add: saved_ok_def saved_files_snoc accept_events_written)
      then have "\<exists>us. written log' = saved_files W folder_path ?p0 us" by blast
      with i at_enqueue show ?thesis
        by (simp add: sl' saved_ok_def accepted_urls_snoc accept_events_written)
    qed
  qed (use leave in auto)
  then show ?thesis by (simp add: assms)
qed

section \<open>Accepting a page\<close>







section \<open>Loading a checkpoint\<close>






section \<open>The budget\<close>

lemma loop_body_page_count_le:
  "page_count (fst (after (loop_body W url folder_path max_depth k (s, log)))) \<le> page_count s + 1"
  by (auto simp: loop_body_page_count split: list.splits)

lemma loop_body_raise_state:
  assumes "loop_body W url folder_path max_depth k (s, log) = Inl (e, s', log')" "queue s \<noteq> []"
  shows "page_count s' = page_count s \<and>
     (e = OSError \<and> makedirs_raises W k folder_path \<or>
      e = OverflowError \<and> clock_advanced W k \<and> float_overflow (crawled_pages s'))"
proof -
  from assms(1) have n: "iteration_raises W folder_path max_depth k s = Some e"
    using loop_body_raised[of W url folder_path max_depth k s log] by simp
  from assms(1) have a: "after (loop_body W url folder_path max_depth k (s, log)) = (s', log')"
    by simp
  obtain u d rest where q: "queue s = (u, d) # rest"
    using assms(2) by (cases "queue s") auto
  have "page_count s' = page_count s"
    using loop_body_page_count[of W url folder_path max_depth k s log] a n q by simp
  moreover have "crawled_pages s' =
      (if u \<in> visited s \<or> d > max_depth then crawled_pages s else crawled_pages s + 1)"
    using loop_body_crawled_pages[of W url folder_path max_depth k s log] a q by simp
  ultimately show ?thesis
    using n q by (auto simp: iteration_raises_def rate_raises_def split: if_splits)
qed

lemma interrupted_body_page_count_le:
  assumes "interrupted_body p W url folder_path max_depth k (s, log) = Some (s', log')"
  shows "page_count s' \<le> page_count s + 1"
  using assms by (cases rule: interrupted_body_cases) auto

lemma crawl_loop_exit:
  assumes "page_count s \<le> max_pages"
    "crawl_loop W url folder_path max_pages max_depth k (s, log) = (x, s', log')"
  shows "page_count s' \<le> max_pages \<and>
     (x = BudgetReached \<longrightarrow> page_count s' = max_pages) \<and>
     (x = FrontierExhausted \<longrightarrow> queue s' = [] \<and> page_count s' < max_pages) \<and>
     (x = StopRequested \<longrightarrow> (\<exists>j. shutdown_flag W j) \<and> page_count s' < max_pages) \<and>
     (x = Interrupted \<longrightarrow> (\<exists>j. keyboard_interrupt W j \<noteq> None)) \<and>
     (\<forall>e. x = Raised e \<longrightarrow>
        page_count s' < max_pages \<and>
        (e = OSError \<and> (\<exists>j. makedirs_raises W j folder_path) \<or>
         e = OverflowError \<and> (\<exists>j. clock_advanced W j) \<and> float_overflow (crawled_pages s')))"
proof -
  let ?I = "\<lambda>sl. page_count (fst sl) \<le> max_pages"
  let ?Q = "\<lambda>r. page_count (fst (snd r)) \<le> max_pages \<and>
     (fst r = BudgetReached \<longrightarrow> page_count (fst (snd r)) = max_pages) \<and>
     (fst r = FrontierExhausted \<longrightarrow>
        queue (fst (snd r)) = [] \<and> page_count (fst (snd r)) < max_pages) \<and>
     (fst r = StopRequested \<longrightarrow>
        (\<exists>j. shutdown_flag W j) \<and> page_count (fst (snd r)) < max_pages) \<and>
     (fst r = Interrupted \<longrightarrow> (\<exists>j. keyboard_interrupt W j \<noteq> None)) \<and>
     (\<forall>e. fst r = Raised e \<longrightarrow>
        page_count (fst (snd r)) < max_pages \<and>
        (e = OSError \<and> (\<exists>j. makedirs_raises W j folder_path) \<or>
         e = OverflowError \<and> (\<exists>j. clock_advanced W j) \<and>
           float_overflow (crawled_pages (fst (snd r)))))"
  have "?Q (crawl_loop W url folder_path max_pages max_depth k (s, log))"
  proof (rule crawl_loop_rule[where I = ?I and Q = ?Q])
    show "?I (s, log)" using assms(1) by simp
  next
    fix sl' k and s :: crawl_state and log :: "event list"
    assume "page_count s < max_pages"
      "loop_body W url folder_path max_depth k (s, log) = Inr sl'"
    then show "?I sl'"
      using loop_body_page_count_le[of W url folder_path max_depth k s log] by simp
  next
    fix p sl' k and s :: crawl_state and log :: "event list"
    assume "page_count s < max_pages" "keyboard_interrupt W k = Some p"
      "interrupted_body p W url folder_path max_depth k (s, log) = Some sl'"
    then show "?Q (Interrupted, sl')"
      using interrupted_body_page_count_le[of p W url folder_path max_depth k s log
              "fst sl'" "snd sl'"]
      by auto
  next
    fix e sl' k and s :: crawl_state and log :: "event list"
    assume "page_count s < max_pages" "queue s \<noteq> []"
      "loop_body W url folder_path max_depth k (s, log) = Inl (e, sl')"
    then show "?Q (Raised e, sl')"
      using loop_body_raise_state[of W url folder_path max_depth k s log e "fst sl'" "snd sl'"]
      by auto
  qed auto
  then show ?thesis by (simp add: assms(2))
qed

lemma budget_monotone:
  "M \<le> M' \<Longrightarrow> page_count (fst sl) \<le> M \<Longrightarrow>
   M \<le> page_count (fst (snd (crawl_loop W url folder_path M' max_depth k sl))) \<Longrightarrow>
     page_count (fst (snd (crawl_loop W url folder_path M max_depth k sl))) = M"
proof (induction W url folder_path M' max_depth k sl rule: crawl_loop.induct)
  case (1 W url folder_path M' max_depth k s log)
  let ?i = "case keyboard_interrupt W k of
              None \<Rightarrow> None
            | Some p \<Rightarrow> interrupted_body p W url folder_path max_depth k (s, log)"
  show ?case
  proof (cases "page_count s < M")
    case False
    with "1.prems"(2) show ?thesis by (simp add: crawl_loop.simps)
  next
    case True
    with "1.prems"(1) have lt: "page_count s < M'" by simp
    show ?thesis
    proof (cases "queue s = [] \<or> shutdown_flag W k")
      case True
      then have "snd (crawl_loop W url folder_path M' max_depth k (s, log)) = (s, log)"
        by (simp add: crawl_loop_leave)
      with "1.prems"(3) \<open>page_count s < M\<close> show ?thesis by simp
    next
      case False
      show ?thesis
      proof (cases ?i)
        case None
        show ?thesis
        proof (cases "loop_body W url folder_path max_depth k (s, log)")
          case (Inr sl')
          have le: "page_count (fst sl') \<le> M"
            using loop_body_page_count_le[of W url folder_path max_depth k s log] True Inr
            by simp
          have "crawl_loop W url folder_path M' max_depth k (s, log) =
              crawl_loop W url folder_path M' max_depth (Suc k) sl'"
            using lt False None Inr by (simp add: crawl_loop.simps)
          moreover have "crawl_loop W url folder_path M max_depth k (s, log) =
              crawl_loop W url folder_path M max_depth (Suc k) sl'"
            using True False None Inr by (simp add: crawl_loop.simps)
          ultimately show ?thesis
            using "1.IH" lt False None Inr "1.prems"(1,3) le by simp
        next
          case (Inl r)
          obtain e s' log' where r: "r = (e, s', log')" by (cases r)
          have "page_count s' = page_count s"
            using loop_body_raise_state[of W url folder_path max_depth k s log e s' log']
              Inl r False by simp
          moreover have "crawl_loop W url folder_path M' max_depth k (s, log) =
              (Raised e, s', log')"
            using lt False None Inl r by (simp add: crawl_loop.simps)
          ultimately show ?thesis
            using "1.prems"(3) True by simp
        qed
      next
        case (Some sl')
        then obtain p where "interrupted_body p W url folder_path max_depth k (s, log) = Some sl'"
          by (auto split: option.splits)
        then have "page_count (fst sl') \<le> M"
          using interrupted_body_page_count_le[of p W url folder_path max_depth k s log
                  "fst sl'" "snd sl'"] True
          by simp
        moreover have "crawl_loop W url folder_path M' max_depth k (s, log) = (Interrupted, sl')"
          using lt False Some by (simp add: crawl_loop.simps)
        moreover have "crawl_loop W url folder_path M max_depth k (s, log) = (Interrupted, sl')"
          using True False Some by (simp add: crawl_loop.simps)
        ultimately show ?thesis using "1.prems"(3) by simp
      qed
    qed
  qed
qed

text \<open>
  C3, as the claim states it, fails for a run that starts above its budget. The loop test
  is \<open>page_count < max_pages\<close>, so a crawl resumed with eight pages saved and a budget of
  two stops at once with eight pages saved, not two, although no stop is requested and the
  frontier yields three acceptable pages (a budget of eleven saves them). A fresh crawl
  with a negative budget stops at once with zero pages saved.
\<close>

theorem run_above_budget_stops_without_meeting_it:
  "page_count demo_resumed = 8 \<and>
   crawl_loop demo_rich_web [115] [111] 11 2 0 (demo_resumed, []) =
     (BudgetReached, demo_rich_final, demo_rich_log) \<and>
   length (written demo_rich_log) = 3 \<and>
   \<not> shutdown_flag demo_rich_web 0 \<and> keyboard_interrupt demo_rich_web 0 = None \<and>
   crawl_loop demo_rich_web [115] [111] 2 2 0 (demo_resumed, []) =
     (BudgetReached, demo_resumed, []) \<and>
   page_count (fst (snd (crawl_loop demo_rich_web [115] [111] 2 2 0 (demo_resumed, [])))) \<noteq> 2 \<and>
   crawl_loop demo_web [115] [111] (- 1) 2 0 (fresh_state demo_web [115], []) =
     (BudgetReached, fresh_state demo_web [115], []) \<and>
   page_count (fresh_state demo_web [115]) \<noteq> - 1"
  by (simp add: demo_run_rich demo_run_over_budget crawl_loop.simps[of _ _ _ "- 1"]
      demo_fresh)
     (simp add: demo_resumed_def demo_rich_log_def demo_rich_web_def demo_web_def
       demo_start_def)

text \<open>
  C3, amended. The loop leaves the state as it is when \<open>page_count < max_pages\<close>, a non-empty
  queue and a clear shutdown flag do not all hold, and otherwise runs an iteration, which
  pops the head of the queue (to its end or to an exception when no interrupt strikes).
  From a state with \<open>page_count \<le> max_pages\<close>: the run ends with \<open>page_count \<le> max_pages\<close>; it
  ends as \<open>BudgetReached\<close> only with \<open>page_count = max_pages\<close>, as \<open>FrontierExhausted\<close> only
  with an empty queue and fewer pages, as \<open>StopRequested\<close> only when the flag was set, as
  \<open>Interrupted\<close> only when an interrupt struck, and by an exception only with fewer pages and
  only when \<open>os.makedirs\<close> failed or the rate could not be computed; so with no stop and no
  interrupt it ends with \<open>page_count = max_pages\<close> unless the queue ran empty or an
  exception was raised first. The budget counts accepted pages: when the loop is left by
  its test, \<open>page_count\<close> has grown by the number of processed URLs whose text was accepted,
  and \<open>crawled_pages\<close> by the number of processed URLs; unless an interrupt ended the run,
  \<open>page_count\<close> has grown by the number of files written. And if the crawl with some larger
  budget saves at least \<open>max_pages\<close> pages, the crawl with budget \<open>max_pages\<close> ends with
  exactly \<open>max_pages\<close> pages saved, by the budget test or by an interrupt.
\<close>

theorem loop_runs_below_budget_and_stops_at_it:
  "(\<not> (page_count s < max_pages \<and> queue s \<noteq> [] \<and> \<not> shutdown_flag W k) \<longrightarrow>
      crawl_loop W url folder_path max_pages max_depth k (s, log) =
        (if \<not> page_count s < max_pages then BudgetReached
         else if queue s = [] then FrontierExhausted else StopRequested, s, log)) \<and>
   (page_count s < max_pages \<and> queue s \<noteq> [] \<and> \<not> shutdown_flag W k \<and>
    keyboard_interrupt W k = None \<longrightarrow>
      crawl_loop W url folder_path max_pages max_depth k (s, log) =
        (case loop_body W url folder_path max_depth k (s, log) of
           Inl (e, sl) \<Rightarrow> (Raised e, sl)
         | Inr sl \<Rightarrow> crawl_loop W url folder_path max_pages max_depth (Suc k) sl) \<and>
      popped (snd (after (loop_body W url folder_path max_depth k (s, log)))) =
        popped log @ [hd (queue s)]) \<and>
   (page_count s \<le> max_pages \<and>
    crawl_loop W url folder_path max_pages max_depth k (s, log) = (x, s', log') \<longrightarrow>
      page_count s' \<le> max_pages \<and>
      (x = BudgetReached \<longrightarrow> page_count s' = max_pages) \<and>
      (x = FrontierExhausted \<longrightarrow> queue s' = [] \<and> page_count s' < max_pages) \<and>
      (x = StopRequested \<longrightarrow> (\<exists>j. shutdown_flag W j) \<and> page_count s' < max_pages) \<and>
      (x = Interrupted \<longrightarrow> (\<exists>j. keyboard_interrupt W j \<noteq> None)) \<and>
      (\<forall>e. x = Raised e \<longrightarrow>
         page_count s' < max_pages \<and>
         (e = OSError \<and> (\<exists>j. makedirs_raises W j folder_path) \<or>
          e = OverflowError \<and> (\<exists>j. clock_advanced W j) \<and>
            float_overflow (crawled_pages s')))) \<and>
   (page_count s \<le> max_pages \<and> (\<forall>j. \<not> shutdown_flag W j) \<and>
    (\<forall>j. keyboard_interrupt W j = None) \<and>
    crawl_loop W url folder_path max_pages max_depth k (s, log) = (x, s', log') \<longrightarrow>
      x = BudgetReached \<and> page_count s' = max_pages \<or>
      x = FrontierExhausted \<and> queue s' = [] \<and> page_count s' < max_pages \<or>
      (\<exists>e. x = Raised e) \<and> page_count s' < max_pages) \<and>
   (crawl_loop W url folder_path max_pages max_depth k (s0, []) = (x0, s1, log1) \<longrightarrow>
      (x0 = BudgetReached \<or> x0 = FrontierExhausted \<or> x0 = StopRequested \<longrightarrow>
         page_count s1 =
           page_count s0 +
           int (length (filter (\<lambda>u. accepted (extract_nepali_text_from_url W u))
                          (marked log1))) \<and>
         crawled_pages s1 = crawled_pages s0 + int (length (marked log1))) \<and>
      (x0 \<noteq> Interrupted \<longrightarrow> page_count s1 = page_count s0 + int (length (written log1))) \<and>
      page_count s1 \<le>
        page_count s0 +
        int (length (filter (\<lambda>u. accepted (extract_nepali_text_from_url W u))
                       (marked log1)))) \<and>
   (page_count s \<le> max_pages \<and> max_pages \<le> M' \<and>
    max_pages \<le> page_count (fst (snd (crawl_loop W url folder_path M' max_depth k (s, log)))) \<longrightarrow>
      page_count (fst (snd (crawl_loop W url folder_path max_pages max_depth k (s, log))))
        = max_pages \<and>
      (fst (crawl_loop W url folder_path max_pages max_depth k (s, log)) = BudgetReached \<or>
       fst (crawl_loop W url folder_path max_pages max_depth k (s, log)) = Interrupted))"
proof -
  have 1: "\<not> (page_count s < max_pages \<and> queue s \<noteq> [] \<and> \<not> shutdown_flag W k) \<longrightarrow>
      crawl_loop W url folder_path max_pages max_depth k (s, log) =
        (if \<not> page_count s < max_pages then BudgetReached
         else if queue s = [] then FrontierExhausted else StopRequested, s, log)"
    using crawl_loop_leave[of s max_pages W k url folder_path max_depth log] by blast
  have 2: "page_count s < max_pages \<and> queue s \<noteq> [] \<and> \<not> shutdown_flag W k \<and>
    keyboard_interrupt W k = None \<longrightarrow>
      crawl_loop W url folder_path max_pages max_depth k (s, log) =
        (case loop_body W url folder_path max_depth k (s, log) of
           Inl (e, sl) \<Rightarrow> (Raised e, sl)
         | Inr sl \<Rightarrow> crawl_loop W url folder_path max_pages max_depth (Suc k) sl) \<and>
      popped (snd (after (loop_body W url folder_path max_depth k (s, log)))) =
        popped log @ [hd (queue s)]"
    by (cases "queue s")
       (simp_all add: crawl_loop.simps[of W url folder_path max_pages max_depth k s log]
          loop_body_log body_events_popped)
  have 3: "page_count s \<le> max_pages \<and>
    crawl_loop W url folder_path max_pages max_depth k (s, log) = (x, s', log') \<longrightarrow>
      page_count s' \<le> max_pages \<and>
      (x = BudgetReached \<longrightarrow> page_count s' = max_pages) \<and>
      (x = FrontierExhausted \<longrightarrow> queue s' = [] \<and> page_count s' < max_pages) \<and>
      (x = StopRequested \<longrightarrow> (\<exists>j. shutdown_flag W j) \<and> page_count s' < max_pages) \<and>
      (x = Interrupted \<longrightarrow> (\<exists>j. keyboard_interrupt W j \<noteq> None)) \<and>
      (\<forall>e. x = Raised e \<longrightarrow>
         page_count s' < max_pages \<and>
         (e = OSError \<and> (\<exists>j. makedirs_raises W j folder_path) \<or>
          e = OverflowError \<and> (\<exists>j. clock_advanced W j) \<and>
            float_overflow (crawled_pages s')))"
    using crawl_loop_exit[of s max_pages W url folder_path max_depth k log x s' log'] by blast
  have 4: "page_count s \<le> max_pages \<and> (\<forall>j. \<not> shutdown_flag W j) \<and>
    (\<forall>j. keyboard_interrupt W j = None) \<and>
    crawl_loop W url folder_path max_pages max_depth k (s, log) = (x, s', log') \<longrightarrow>
      x = BudgetReached \<and> page_count s' = max_pages \<or>
      x = FrontierExhausted \<and> queue s' = [] \<and> page_count s' < max_pages \<or>
      (\<exists>e. x = Raised e) \<and> page_count s' < max_pages"
    using 3 by (cases x) auto
  have 5: "(x0 = BudgetReached \<or> x0 = FrontierExhausted \<or> x0 = StopRequested \<longrightarrow>
         page_count s1 =
           page_count s0 +
           int (length (filter (\<lambda>u. accepted (extract_nepali_text_from_url W u))
                          (marked log1))) \<and>
         crawled_pages s1 = crawled_pages s0 + int (length (marked log1))) \<and>
      (x0 \<noteq> Interrupted \<longrightarrow> page_count s1 = page_count s0 + int (length (written log1))) \<and>
      page_count s1 \<le>
        page_count s0 +
        int (length (filter (\<lambda>u. accepted (extract_nepali_text_from_url W u))
                       (marked log1)))"
    if "crawl_loop W url folder_path max_pages max_depth k (s0, []) = (x0, s1, log1)"
    using crawl_loop_saved[OF that] by (simp add: saved_ok_def accepted_urls_def)
  have 6: "page_count (fst (snd (crawl_loop W url folder_path max_pages max_depth k (s, log))))
        = max_pages \<and>
      (fst (crawl_loop W url folder_path max_pages max_depth k (s, log)) = BudgetReached \<or>
       fst (crawl_loop W url folder_path max_pages max_depth k (s, log)) = Interrupted)"
    if a: "page_count s \<le> max_pages" and b: "max_pages \<le> M'"
      and c: "max_pages \<le>
        page_count (fst (snd (crawl_loop W url folder_path M' max_depth k (s, log))))"
  proof -
    obtain y t l where r: "crawl_loop W url folder_path max_pages max_depth k (s, log) = (y, t, l)"
      by (cases "crawl_loop W url folder_path max_pages max_depth k (s, log)")
    have "page_count t = max_pages"
      using budget_monotone[of max_pages M' "(s, log)" W url folder_path max_depth k] a b c r
      by simp
    moreover from this have "y = BudgetReached \<or> y = Interrupted"
      using crawl_loop_exit[OF a r] by (cases y) auto
    ultimately show ?thesis by (simp add: r)
  qed
  from 1 2 3 4 5 6 show ?thesis by blast
qed

theorem loop_runs_below_budget_and_stops_at_it_witness:
  "crawl_loop demo_web [115] [111] 1 2 1 (demo_after_one, demo_log_one) =
     (BudgetReached, demo_after_one, demo_log_one) \<and>
   crawl_loop demo_web [115] [111] 5 2 0 (demo_start, []) =
     crawl_loop demo_web [115] [111] 5 2 (Suc 0) (demo_after_one, demo_log_one) \<and>
   popped (snd (after (loop_body demo_web [115] [111] 2 0 (demo_start, [])))) = [([97], 1)] \<and>
   crawl_loop demo_web [115] [111] 5 2 0 (demo_start, []) =
     (FrontierExhausted, demo_final, demo_log) \<and>
   page_count demo_final \<le> 5 \<and> queue demo_final = [] \<and> page_count demo_final < 5 \<and>
   crawl_loop demo_web [115] [111] 1 2 0 (demo_start, []) =
     (BudgetReached, demo_after_one, demo_log_one) \<and>
   page_count demo_after_one = 1 \<and>
   page_count (fst (snd (crawl_loop demo_web [115] [111] 1 2 0 (demo_start, [])))) = 1 \<and>
   crawl_loop demo_web [115] [111] 1 1 0 (demo_swapped, []) =
     (BudgetReached,
      \<lparr>queue = [], visited = {[97], [98]}, page_count = 1, crawled_pages = 2\<rparr>,
      [Pop [98] 1, Mark [98], Pop [97] 1, Mark [97],
       WriteFile [111] (ascii ''page_1.txt'') demo_text]) \<and>
   int (length (filter (\<lambda>u. accepted (extract_nepali_text_from_url demo_web u))
                  [[98], [97]])) = 1 \<and>
   crawl_loop demo_web [115] [] 5 2 0 (demo_start, []) =
     (Raised OSError,
      \<lparr>queue = [([98], 1)], visited = {[97]}, page_count = 0, crawled_pages = 1\<rparr>,
      [Pop [97] 1, Mark [97]]) \<and>
   (\<exists>j. makedirs_raises demo_web j [])"
proof -
  note t = loop_runs_below_budget_and_stops_at_it
  let ?sw = "\<lparr>queue = [], visited = {[97], [98]}, page_count = 1, crawled_pages = 2\<rparr>"
  let ?swlog = "[Pop [98] 1, Mark [98], Pop [97] 1, Mark [97],
       WriteFile [111] (ascii ''page_1.txt'') demo_text]"
  let ?cut = "\<lparr>queue = [([98], 1)], visited = {[97]}, page_count = 0, crawled_pages = 1\<rparr>"
  let ?cutlog = "[Pop [97] 1, Mark [97]]"
  have a: "\<not> (page_count demo_after_one < 1 \<and> queue demo_after_one \<noteq> [] \<and>
              \<not> shutdown_flag demo_web 1)"
    "\<not> page_count demo_after_one < 1"
    by (simp_all add: demo_after_one_def)
  have b: "page_count demo_start < 5 \<and> queue demo_start \<noteq> [] \<and> \<not> shutdown_flag demo_web 0 \<and>
      keyboard_interrupt demo_web 0 = None"
    "hd (queue demo_start) = ([97], 1)"
    by (simp_all add: demo_start_def demo_web_def)
  have c: "page_count demo_start \<le> 5" "page_count demo_start \<le> 1" "(1::int) \<le> 5"
    by (simp_all add: demo_start_def)
  have d: "1 \<le> page_count (fst (snd (crawl_loop demo_web [115] [111] 5 2 0 (demo_start, []))))"
    by (simp add: demo_run demo_final_def)
  have e: "(\<forall>j. \<not> shutdown_flag demo_web j) \<and> (\<forall>j. keyboard_interrupt demo_web j = None)"
    by (simp add: demo_web_def)
  have f: "marked ?swlog = [[98], [97]]" "page_count demo_swapped = 0"
    "crawled_pages demo_swapped = 0"
    by (simp_all add: demo_swapped_def)
  from t[where s = demo_after_one and max_pages = 1 and W = demo_web and k = 1
           and url = "[115]" and folder_path = "[111]" and max_depth = 2
           and log = demo_log_one and x = BudgetReached and s' = demo_after_one
           and log' = demo_log_one and ?s0.0 = demo_start and ?x0.0 = BudgetReached
           and ?s1.0 = demo_start and ?log1.0 = "[]" and M' = 1] a
  have 1: "crawl_loop demo_web [115] [111] 1 2 1 (demo_after_one, demo_log_one) =
     (BudgetReached, demo_after_one, demo_log_one)"
    by simp
  from t[where s = demo_start and max_pages = 5 and W = demo_web and k = 0
           and url = "[115]" and folder_path = "[111]" and max_depth = 2 and log = "[]"
           and x = FrontierExhausted and s' = demo_final and log' = demo_log
           and ?s0.0 = demo_start and ?x0.0 = FrontierExhausted
           and ?s1.0 = demo_final and ?log1.0 = demo_log and M' = 5] b c(1) demo_run
  have 2: "crawl_loop demo_web [115] [111] 5 2 0 (demo_start, []) =
     crawl_loop demo_web [115] [111] 5 2 (Suc 0) (demo_after_one, demo_log_one)"
    "popped (snd (after (loop_body demo_web [115] [111] 2 0 (demo_start, [])))) = [([97], 1)]"
    "page_count demo_final \<le> 5 \<and> queue demo_final = [] \<and> page_count demo_final < 5"
    by (simp_all add: demo_body_one)
  from t[where s = demo_start and max_pages = 1 and W = demo_web and k = 0
           and url = "[115]" and folder_path = "[111]" and max_depth = 2 and log = "[]"
           and x = BudgetReached and s' = demo_after_one and log' = demo_log_one
           and ?s0.0 = demo_start and ?x0.0 = BudgetReached
           and ?s1.0 = demo_after_one and ?log1.0 = demo_log_one and M' = 5]
       c d e demo_run_budget
  have 3: "page_count demo_after_one = 1"
    "page_count (fst (snd (crawl_loop demo_web [115] [111] 1 2 0 (demo_start, [])))) = 1"
    by simp_all
  from t[where s = demo_swapped and max_pages = 1 and W = demo_web and k = 0
           and url = "[115]" and folder_path = "[111]" and max_depth = 1 and log = "[]"
           and x = BudgetReached and s' = ?sw and log' = ?swlog
           and ?s0.0 = demo_swapped and ?x0.0 = BudgetReached
           and ?s1.0 = ?sw and ?log1.0 = ?swlog and M' = 1]
       demo_run_swapped f
  have 4: "int (length (filter (\<lambda>u. accepted (extract_nepali_text_from_url demo_web u))
                  [[98], [97]])) = 1"
    by simp
  from t[where s = demo_start and max_pages = 5 and W = demo_web and k = 0
           and url = "[115]" and folder_path = "[]" and max_depth = 2 and log = "[]"
           and x = "Raised OSError" and s' = ?cut and log' = ?cutlog
           and ?s0.0 = demo_start and ?x0.0 = "Raised OSError"
           and ?s1.0 = ?cut and ?log1.0 = ?cutlog and M' = 5]
       c(1) demo_run_raise
  have 5: "\<exists>j. makedirs_raises demo_web j []"
    by simp
  from 1 2 3 4 5 demo_run demo_run_budget demo_run_swapped demo_run_raise
  show ?thesis by (intro conjI) (rule refl | assumption | blast)+
qed

end
